theory Spec2Isabelle
  imports Main "HOL-Library.Word"
begin

section \<open>Exceptions and the storage collaborator\<close>

text \<open>
  The program is \<^verbatim>\<open>process_small_files.py\<close>. Every exception the modelled code can meet is
  a subclass of Python's \<^verbatim>\<open>Exception\<close>; a function that can raise returns \<open>exn + 'a\<close>, with
  \<open>Inl\<close> the raised exception.
\<close>

datatype exn =
    ValueError string
  | KeyError string
  | OSError string
  | HttpError string

type_synonym bytes = "8 word list"

text \<open>
  A remote object opened for reading: the bytes the stream delivers, and how the stream ends
  once they are consumed: \<open>None\<close> is end of file (\<^verbatim>\<open>read\<close> returns \<^verbatim>\<open>b""\<close>), \<open>Some e\<close> is a
  read that raises \<open>e\<close> and delivers nothing. The storage object answers the same call the same
  way throughout a run.
\<close>

record remote_file =
  content :: bytes
  fault :: "exn option"

text \<open>
  The \<^verbatim>\<open>gcsfs.GCSFileSystem\<close> object, as far as the program uses it: \<^verbatim>\<open>fs.ls\<close>, \<^verbatim>\<open>fs.info\<close>
  (the dictionary of an object's integer-valued metadata) and \<^verbatim>\<open>fs.open(path, 'rb')\<close>.
\<close>

record gcsfs =
  ls :: "string \<Rightarrow> exn + string list"
  info :: "string \<Rightarrow> exn + (string \<rightharpoonup> int)"
  open_rb :: "string \<Rightarrow> exn + remote_file"

section \<open>Python strings\<close>

text \<open>
  A Python \<^verbatim>\<open>str\<close> is modelled as a \<open>string\<close>, a list of characters with code points
  below 256. The string methods the program and the library code under it use:
\<close>

definition startswith :: "string \<Rightarrow> string \<Rightarrow> bool" where
  "startswith s p = (take (length p) s = p)"

definition endswith :: "string \<Rightarrow> string \<Rightarrow> bool" where
  "endswith s p = (length p \<le> length s \<and> drop (length s - length p) s = p)"

definition lstrip :: "string \<Rightarrow> string \<Rightarrow> string" where
  "lstrip s chars = dropWhile (\<lambda>c. c \<in> set chars) s"

definition rstrip :: "string \<Rightarrow> string \<Rightarrow> string" where
  "rstrip s chars = rev (dropWhile (\<lambda>c. c \<in> set chars) (rev s))"

text \<open>\<^verbatim>\<open>s.replace(b, "")\<close> for a one-character \<^verbatim>\<open>b\<close>.\<close>

definition remove_char :: "char \<Rightarrow> string \<Rightarrow> string" where
  "remove_char b s = filter (\<lambda>c. c \<noteq> b) s"

text \<open>\<^verbatim>\<open>s.find(c)\<close> and \<^verbatim>\<open>s.find(c, start)\<close>; \<open>None\<close> stands for \<^verbatim>\<open>-1\<close>.\<close>

fun find_char :: "char \<Rightarrow> string \<Rightarrow> nat option" where
  "find_char c [] = None"
| "find_char c (x # xs) = (if x = c then Some 0 else map_option Suc (find_char c xs))"

definition find_from :: "char \<Rightarrow> string \<Rightarrow> nat \<Rightarrow> nat option" where
  "find_from c s start = map_option (\<lambda>i. i + start) (find_char c (drop start s))"

text \<open>\<^verbatim>\<open>s.rfind(c) + 1\<close>: the length of the part of \<open>s\<close> up to and including the last \<open>c\<close>,
  0 when there is none.\<close>

definition rfind_plus1 :: "char \<Rightarrow> string \<Rightarrow> nat" where
  "rfind_plus1 c s = length s - length (takeWhile (\<lambda>x. x \<noteq> c) (rev s))"

text \<open>\<^verbatim>\<open>s.split(sep)\<close> for a one-character separator.\<close>

fun split_on :: "char \<Rightarrow> string \<Rightarrow> string list" where
  "split_on sep [] = [[]]"
| "split_on sep (x # xs) =
     (if x = sep then [] # split_on sep xs
      else (case split_on sep xs of [] \<Rightarrow> [[x]] | w # ws \<Rightarrow> (x # w) # ws))"

text \<open>\<^verbatim>\<open>sep.join(parts)\<close>\<close>

fun join_with :: "string \<Rightarrow> string list \<Rightarrow> string" where
  "join_with sep [] = []"
| "join_with sep [p] = p"
| "join_with sep (p # q # ps) = p @ sep @ join_with sep (q # ps)"

definition isascii :: "string \<Rightarrow> bool" where
  "isascii s = list_all (\<lambda>c. (of_char c :: nat) < 128) s"

definition ascii_isalpha :: "char \<Rightarrow> bool" where
  "ascii_isalpha c = (let n = (of_char c :: nat) in (65 \<le> n \<and> n \<le> 90) \<or> (97 \<le> n \<and> n \<le> 122))"

text \<open>\<^verbatim>\<open>s.lower()\<close>, for the ASCII strings it is applied to.\<close>

definition ascii_lower :: "string \<Rightarrow> string" where
  "ascii_lower s =
     map (\<lambda>c. let n = (of_char c :: nat) in if 65 \<le> n \<and> n \<le> 90 then char_of (n + 32) else c) s"

section \<open>posixpath\<close>

text \<open>
  The path functions are the standard library's for POSIX (CPython 3.11, \<^verbatim>\<open>posixpath.py\<close> and
  \<^verbatim>\<open>genericpath.py\<close>), on \<^verbatim>\<open>str\<close> arguments.
\<close>

definition isabs :: "string \<Rightarrow> bool" where
  "isabs s = startswith s ''/''"

text \<open>
  One step of \<^verbatim>\<open>join(a, *p)\<close>:
  \<^verbatim>\<open>
    if b.startswith(sep):
        path = b
    elif not path or path.endswith(sep):
        path += b
    else:
        path += sep + b
  \<close>
\<close>

definition join_step :: "string \<Rightarrow> string \<Rightarrow> string" where
  "join_step path b =
     (if startswith b ''/'' then b
      else if path = [] \<or> endswith path ''/'' then path @ b
      else path @ ''/'' @ b)"

definition join :: "string \<Rightarrow> string list \<Rightarrow> string" where
  "join a p = foldl join_step a p"

text \<open>
  \<^verbatim>\<open>
  def dirname(p):
      i = p.rfind(sep) + 1
      head = p[:i]
      if head and head != sep*len(head):
          head = head.rstrip(sep)
      return head
  \<close>
\<close>

definition dirname :: "string \<Rightarrow> string" where
  "dirname p =
     (let i = rfind_plus1 CHR ''/'' p;
          head = take i p
      in if head \<noteq> [] \<and> head \<noteq> replicate (length head) CHR ''/''
         then rstrip head ''/'' else head)"

text \<open>
  The loop body of \<^verbatim>\<open>normpath\<close> (\<open>part\<close> is the loop variable \<^verbatim>\<open>comp\<close>):
  \<^verbatim>\<open>
    if comp in (empty, dot):
        continue
    if (comp != dotdot or (not initial_slashes and not new_comps) or
         (new_comps and new_comps[-1] == dotdot)):
        new_comps.append(comp)
    elif new_comps:
        new_comps.pop()
  \<close>
\<close>

definition normpath_step :: "nat \<Rightarrow> string list \<Rightarrow> string \<Rightarrow> string list" where
  "normpath_step initial_slashes new_comps part =
     (if part = '''' \<or> part = ''.'' then new_comps
      else if part \<noteq> ''..'' \<or> (initial_slashes = 0 \<and> new_comps = [])
              \<or> (new_comps \<noteq> [] \<and> last new_comps = ''..'')
      then new_comps @ [part]
      else if new_comps \<noteq> [] then butlast new_comps
      else new_comps)"

definition normpath :: "string \<Rightarrow> string" where
  "normpath path =
     (if path = [] then ''.''
      else
        let initial_slashes =
              (if startswith path ''/''
               then (if startswith path ''//'' \<and> \<not> startswith path ''///'' then 2 else 1)
               else 0);
            comps = split_on CHR ''/'' path;
            new_comps = foldl (normpath_step initial_slashes) [] comps;
            joined = join_with ''/'' new_comps;
            path' = (if initial_slashes \<noteq> 0
                     then replicate initial_slashes CHR ''/'' @ joined else joined)
        in if path' = [] then ''.'' else path')"

text \<open>\<^verbatim>\<open>abspath\<close>, with the process's working directory \<^verbatim>\<open>os.getcwd()\<close> as a parameter.\<close>

definition abspath :: "string \<Rightarrow> string \<Rightarrow> string" where
  "abspath cwd path = normpath (if \<not> isabs path then join cwd [path] else path)"

text \<open>
  \<^verbatim>\<open>commonprefix([start_list, path_list])\<close> takes the smaller and the larger of the two lists
  and returns the smaller up to the first position where they differ: the longest common
  prefix of the two.
\<close>

fun commonprefix :: "string list \<Rightarrow> string list \<Rightarrow> string list" where
  "commonprefix (x # xs) (y # ys) = (if x = y then x # commonprefix xs ys else [])"
| "commonprefix _ _ = []"

text \<open>
  \<^verbatim>\<open>
  def relpath(path, start=None):
      if not path:
          raise ValueError("no path specified")
      ...
      start_list = [x for x in abspath(start).split(sep) if x]
      path_list = [x for x in abspath(path).split(sep) if x]
      i = len(commonprefix([start_list, path_list]))
      rel_list = [pardir] * (len(start_list)-i) + path_list[i:]
      if not rel_list:
          return curdir
      return join(*rel_list)
  \<close>
\<close>

definition relpath :: "string \<Rightarrow> string \<Rightarrow> string \<Rightarrow> exn + string" where
  "relpath cwd path start =
     (if path = [] then Inl (ValueError ''no path specified'')
      else
        let start_list = filter (\<lambda>x. x \<noteq> []) (split_on CHR ''/'' (abspath cwd start));
            path_list = filter (\<lambda>x. x \<noteq> []) (split_on CHR ''/'' (abspath cwd path));
            i = length (commonprefix start_list path_list);
            rel_list = replicate (length start_list - i) ''..'' @ drop i path_list
        in if rel_list = [] then Inr ''.''
           else Inr (join (hd rel_list) (tl rel_list)))"

text \<open>A path component that \<^verbatim>\<open>normpath\<close> keeps as it is: not empty, without a slash, and neither
  \<^verbatim>\<open>.\<close> nor \<^verbatim>\<open>..\<close>.\<close>

definition plain_component :: "string \<Rightarrow> bool" where
  "plain_component c = (c \<noteq> [] \<and> c \<noteq> ''.'' \<and> c \<noteq> ''..'' \<and> CHR ''/'' \<notin> set c)"

section \<open>urllib.parse\<close>

text \<open>
  \<^verbatim>\<open>urlparse\<close> is the standard library's (CPython 3.11, \<^verbatim>\<open>urllib/parse.py\<close>), called with its
  default arguments \<^verbatim>\<open>scheme=''\<close> and \<^verbatim>\<open>allow_fragments=True\<close>. Two checks of the library rest
  on tables that are not modelled and are parameters: \<^verbatim>\<open>_check_bracketed_host\<close> (the
  \<^verbatim>\<open>ipaddress\<close> module and a regular expression), as the exception it raises if any, and
  \<^verbatim>\<open>unicodedata.normalize('NFKC', _)\<close>.
\<close>

record stdlib =
  check_bracketed_host :: "string \<Rightarrow> exn option"
  nfkc_normalize :: "string \<Rightarrow> string"

definition scheme_chars :: string where
  "scheme_chars = ''abcdefghijklmnopqrstuvwxyz'' @ ''ABCDEFGHIJKLMNOPQRSTUVWXYZ'' @ ''0123456789'' @ ''+-.''"

definition uses_params :: "string list" where
  "uses_params = ['''', ''ftp'', ''hdl'', ''prospero'', ''http'', ''imap'',
                  ''https'', ''shttp'', ''rtsp'', ''rtsps'', ''rtspu'', ''sip'',
                  ''sips'', ''mms'', ''sftp'', ''tel'']"

text \<open>\<^verbatim>\<open>_WHATWG_C0_CONTROL_OR_SPACE\<close>: the characters with code 0 to 32.\<close>

definition c0_control_or_space :: "char \<Rightarrow> bool" where
  "c0_control_or_space c = ((of_char c :: nat) \<le> 32)"

text \<open>\<^verbatim>\<open>_UNSAFE_URL_BYTES_TO_REMOVE = ['\t', '\r', '\n']\<close>\<close>

definition unsafe_url_bytes_to_remove :: string where
  "unsafe_url_bytes_to_remove = [CHR 0x09, CHR 0x0D, CHR 0x0A]"

text \<open>
  \<^verbatim>\<open>
  def _splitnetloc(url, start=0):
      delim = len(url)
      for c in '/?#':
          wdelim = url.find(c, start)
          if wdelim >= 0:
              delim = min(delim, wdelim)
      return url[start:delim], url[delim:]
  \<close>
\<close>

definition splitnetloc :: "string \<Rightarrow> nat \<Rightarrow> string \<times> string" where
  "splitnetloc url start =
     (let delim = fold (\<lambda>c delim. case find_from c url start of
                                      Some wdelim \<Rightarrow> min delim wdelim
                                    | None \<Rightarrow> delim)
                       ''/?#'' (length url)
      in (take (delim - start) (drop start url), drop delim url))"

text \<open>
  \<^verbatim>\<open>
  def _checknetloc(netloc):
      if not netloc or netloc.isascii():
          return
      n = netloc.replace('@', '')
      n = n.replace(':', '')
      n = n.replace('#', '')
      n = n.replace('?', '')
      netloc2 = unicodedata.normalize('NFKC', n)
      if n == netloc2:
          return
      for c in '/?#@:':
          if c in netloc2:
              raise ValueError("netloc '" + netloc + "' contains invalid " +
                               "characters under NFKC normalization")
  \<close>
\<close>

definition checknetloc :: "stdlib \<Rightarrow> string \<Rightarrow> exn option" where
  "checknetloc lib netloc =
     (if netloc = [] \<or> isascii netloc then None
      else
        let n = remove_char CHR ''?'' (remove_char CHR ''#'' (remove_char CHR '':'' (remove_char CHR ''@'' netloc)));
            netloc2 = nfkc_normalize lib n
        in if n = netloc2 then None
           else if \<exists>c \<in> set ''/?#@:''. c \<in> set netloc2
           then Some (ValueError (''netloc '' @ [CHR 0x27] @ netloc @ [CHR 0x27] @
                        '' contains invalid characters under NFKC normalization''))
           else None)"

text \<open>\<^verbatim>\<open>netloc.partition('[')[2].partition(']')[0]\<close>\<close>

definition bracketed_host_of :: "string \<Rightarrow> string" where
  "bracketed_host_of netloc =
     takeWhile (\<lambda>c. c \<noteq> CHR '']'') (drop 1 (dropWhile (\<lambda>c. c \<noteq> CHR ''['') netloc))"

text \<open>\<^verbatim>\<open>url.split(c, 1)\<close> when \<open>c\<close> occurs in \<open>url\<close>: the parts before and after the first \<open>c\<close>.\<close>

definition split_first :: "char \<Rightarrow> string \<Rightarrow> string \<times> string" where
  "split_first c url = (takeWhile (\<lambda>x. x \<noteq> c) url, drop 1 (dropWhile (\<lambda>x. x \<noteq> c) url))"

text \<open>The scheme split of \<^verbatim>\<open>urlsplit\<close>:
  \<^verbatim>\<open>
    i = url.find(':')
    if i > 0 and url[0].isascii() and url[0].isalpha():
        for c in url[:i]:
            if c not in scheme_chars:
                break
        else:
            scheme, url = url[:i].lower(), url[i+1:]
  \<close>
\<close>

definition split_scheme :: "string \<Rightarrow> string \<Rightarrow> string \<times> string" where
  "split_scheme scheme0 url =
     (case find_char CHR '':'' url of
        None \<Rightarrow> (scheme0, url)
      | Some i \<Rightarrow>
          if i > 0 \<and> isascii [hd url] \<and> ascii_isalpha (hd url)
             \<and> list_all (\<lambda>c. c \<in> set scheme_chars) (take i url)
          then (ascii_lower (take i url), drop (i + 1) url)
          else (scheme0, url))"

text \<open>The network location of \<^verbatim>\<open>urlsplit\<close>:
  \<^verbatim>\<open>
    if url[:2] == '//':
        netloc, url = _splitnetloc(url, 2)
        if (('[' in netloc and ']' not in netloc) or
                (']' in netloc and '[' not in netloc)):
            raise ValueError("Invalid IPv6 URL")
        if '[' in netloc and ']' in netloc:
            bracketed_host = netloc.partition('[')[2].partition(']')[0]
            _check_bracketed_host(bracketed_host)
  \<close>
\<close>

definition split_authority :: "stdlib \<Rightarrow> string \<Rightarrow> exn + (string \<times> string)" where
  "split_authority lib url =
     (if take 2 url = ''//'' then
        (case splitnetloc url 2 of
           (netloc, url') \<Rightarrow>
             if (CHR ''['' \<in> set netloc \<and> CHR '']'' \<notin> set netloc)
                \<or> (CHR '']'' \<in> set netloc \<and> CHR ''['' \<notin> set netloc)
             then Inl (ValueError ''Invalid IPv6 URL'')
             else if CHR ''['' \<in> set netloc \<and> CHR '']'' \<in> set netloc
             then (case check_bracketed_host lib (bracketed_host_of netloc) of
                     Some e \<Rightarrow> Inl e
                   | None \<Rightarrow> Inr (netloc, url'))
             else Inr (netloc, url'))
      else Inr ('''', url))"

record split_result =
  scheme :: string
  netloc :: string
  path :: string
  query :: string
  fragment :: string

record parse_result = split_result +
  params :: string

definition urlsplit :: "stdlib \<Rightarrow> string \<Rightarrow> exn + split_result" where
  "urlsplit lib url0 =
     (let url1 = dropWhile c0_control_or_space url0;
          url2 = fold remove_char unsafe_url_bytes_to_remove url1;
          (scheme', url3) = split_scheme '''' url2
      in case split_authority lib url3 of
           Inl e \<Rightarrow> Inl e
         | Inr (netloc', url4) \<Rightarrow>
             let (url5, fragment') =
                   (if CHR ''#'' \<in> set url4 then split_first CHR ''#'' url4 else (url4, ''''));
                 (url6, query') =
                   (if CHR ''?'' \<in> set url5 then split_first CHR ''?'' url5 else (url5, ''''))
             in case checknetloc lib netloc' of
                  Some e \<Rightarrow> Inl e
                | None \<Rightarrow> Inr \<lparr>scheme = scheme', netloc = netloc', path = url6,
                                 query = query', fragment = fragment'\<rparr>)"

text \<open>
  \<^verbatim>\<open>
  def _splitparams(url):
      if '/'  in url:
          i = url.find(';', url.rfind('/'))
          if i < 0:
              return url, ''
      else:
          i = url.find(';')
      return url[:i], url[i+1:]
  \<close>
  In the second branch \<^verbatim>\<open>';' in url\<close> holds at the only call, so \<open>i\<close> is found.
\<close>

definition splitparams :: "string \<Rightarrow> string \<times> string" where
  "splitparams url =
     (case (if CHR ''/'' \<in> set url then find_from CHR '';'' url (rfind_plus1 CHR ''/'' url - 1)
            else find_char CHR '';'' url) of
        None \<Rightarrow> (url, '''')
      | Some i \<Rightarrow> (take i url, drop (i + 1) url))"

definition urlparse :: "stdlib \<Rightarrow> string \<Rightarrow> exn + parse_result" where
  "urlparse lib url0 =
     (case urlsplit lib url0 of
        Inl e \<Rightarrow> Inl e
      | Inr r \<Rightarrow>
          let (url', params') =
                (if scheme r \<in> set uses_params \<and> CHR '';'' \<in> set (path r)
                 then splitparams (path r) else (path r, ''''))
          in Inr \<lparr>scheme = scheme r, netloc = netloc r, path = url',
                  query = query r, fragment = fragment r, params = params'\<rparr>)"

section \<open>The path parser\<close>

definition parse_gcs_path :: "stdlib \<Rightarrow> string \<Rightarrow> exn + (string \<times> string)" where
  "parse_gcs_path lib gcs_path =
     (if \<not> startswith gcs_path ''gs://''
      then Inl (ValueError (''Invalid GCS path: '' @ gcs_path))
      else case urlparse lib gcs_path of
             Inl e \<Rightarrow> Inl e
           | Inr parsed_url \<Rightarrow>
               let bucket_name = netloc parsed_url;
                   prefix = lstrip (path parsed_url) ''/''
               in Inr (bucket_name, prefix))"

text \<open>
  The components of a URL \<^verbatim>\<open>gs://<authority><path>?<query>#<fragment>\<close> as the generic URL
  syntax has them: the authority (host component) is the text after \<^verbatim>\<open>gs://\<close> up to the first
  \<^verbatim>\<open>/\<close>, \<^verbatim>\<open>?\<close> or \<^verbatim>\<open>#\<close>, the path is what follows up to the first \<^verbatim>\<open>?\<close> or \<^verbatim>\<open>#\<close>. Tabs,
  carriage returns and line feeds do not count.
\<close>

definition url_remainder :: "string \<Rightarrow> string" where
  "url_remainder gcs_path = filter (\<lambda>c. c \<notin> set unsafe_url_bytes_to_remove) (drop 5 gcs_path)"

definition url_authority :: "string \<Rightarrow> string" where
  "url_authority gcs_path = takeWhile (\<lambda>c. c \<notin> set ''/?#'') (url_remainder gcs_path)"

definition url_path :: "string \<Rightarrow> string" where
  "url_path gcs_path =
     takeWhile (\<lambda>c. c \<notin> set ''?#'') (dropWhile (\<lambda>c. c \<notin> set ''/?#'') (url_remainder gcs_path))"

text \<open>What \<open>urlparse\<close> makes of the authority: the exception it raises, if any.\<close>

definition authority_error :: "stdlib \<Rightarrow> string \<Rightarrow> exn option" where
  "authority_error lib a =
     (if (CHR ''['' \<in> set a \<and> CHR '']'' \<notin> set a) \<or> (CHR '']'' \<in> set a \<and> CHR ''['' \<notin> set a)
      then Some (ValueError ''Invalid IPv6 URL'')
      else case (if CHR ''['' \<in> set a \<and> CHR '']'' \<in> set a
                 then check_bracketed_host lib (bracketed_host_of a) else None) of
             Some e \<Rightarrow> Some e
           | None \<Rightarrow> checknetloc lib a)"

section \<open>Listing and sizing\<close>

text \<open>\<^verbatim>\<open>return fs.ls(f"{bucket_name}/{prefix}")\<close>\<close>

definition list_blobs :: "gcsfs \<Rightarrow> string \<Rightarrow> string \<Rightarrow> exn + string list" where
  "list_blobs fs bucket_name prefix = ls fs (bucket_name @ ''/'' @ prefix)"

text \<open>\<^verbatim>\<open>return fs.info(blob_path)['size']\<close>: the lookup raises what \<^verbatim>\<open>info\<close> raises, or
  \<^verbatim>\<open>KeyError\<close> when the dictionary has no size.\<close>

definition get_blob_size :: "gcsfs \<Rightarrow> string \<Rightarrow> exn + int" where
  "get_blob_size fs blob_path =
     (case info fs blob_path of
        Inl e \<Rightarrow> Inl e
      | Inr d \<Rightarrow> (case d ''size'' of None \<Rightarrow> Inl (KeyError ''size'') | Some n \<Rightarrow> Inr n))"

section \<open>Grouping\<close>

text \<open>
  Sizes and the budget are Python integers (\<open>int\<close>); \<^verbatim>\<open>max_size_mb\<close> is taken to be an integer,
  as at both call sites. The loop state of \<^verbatim>\<open>group_blobs_by_size\<close> is
  \<open>(grouped_blobs, current_group, current_size)\<close>. One iteration, once the size is known:
  \<^verbatim>\<open>
    if current_size + blob_size > max_size_bytes:
        grouped_blobs.append(current_group)
        current_group = []
        current_size = 0
    current_group.append(blob)
    current_size += blob_size
  \<close>
\<close>

type_synonym group_state = "string list list \<times> string list \<times> int"

fun group_step :: "int \<Rightarrow> group_state \<Rightarrow> string \<Rightarrow> int \<Rightarrow> group_state" where
  "group_step max_size_bytes (grouped_blobs, current_group, current_size) blob blob_size =
     (let (grouped_blobs', current_group', current_size') =
            (if current_size + blob_size > max_size_bytes
             then (grouped_blobs @ [current_group], [], 0)
             else (grouped_blobs, current_group, current_size))
      in (grouped_blobs', current_group' @ [blob], current_size' + blob_size))"

text \<open>The \<^verbatim>\<open>for blob in blobs\<close> loop; a failing size lookup leaves the loop by the exception.\<close>

fun group_loop :: "gcsfs \<Rightarrow> int \<Rightarrow> string list \<Rightarrow> group_state \<Rightarrow> exn + group_state" where
  "group_loop fs max_size_bytes [] st = Inr st"
| "group_loop fs max_size_bytes (blob # blobs) st =
     (case get_blob_size fs blob of
        Inl e \<Rightarrow> Inl e
      | Inr blob_size \<Rightarrow> group_loop fs max_size_bytes blobs (group_step max_size_bytes st blob blob_size))"

definition group_blobs_by_size :: "gcsfs \<Rightarrow> string list \<Rightarrow> int \<Rightarrow> exn + string list list" where
  "group_blobs_by_size fs blobs max_size_mb =
     (let max_size_bytes = max_size_mb * 1024 * 1024 in
      case group_loop fs max_size_bytes blobs ([], [], 0) of
        Inl e \<Rightarrow> Inl e
      | Inr (grouped_blobs, current_group, current_size) \<Rightarrow>
          Inr (if current_group \<noteq> [] then grouped_blobs @ [current_group] else grouped_blobs))"

subsection \<open>The greedy algorithm as the specification words it\<close>

text \<open>
  The reference algorithm closes the current group before inserting an object only when the
  running size plus the object's size exceeds the budget and the current group is non-empty.
  It is stated over a total size function and a budget in bytes.
\<close>

fun reference_step :: "int \<Rightarrow> group_state \<Rightarrow> string \<Rightarrow> int \<Rightarrow> group_state" where
  "reference_step max_group_bytes (out, current, current_size) object object_size =
     (let (out', current', current_size') =
            (if current_size + object_size > max_group_bytes \<and> current \<noteq> []
             then (out @ [current], [], 0)
             else (out, current, current_size))
      in (out', current' @ [object], current_size' + object_size))"

fun reference_loop :: "(string \<Rightarrow> int) \<Rightarrow> int \<Rightarrow> string list \<Rightarrow> group_state \<Rightarrow> group_state" where
  "reference_loop size_of max_group_bytes [] st = st"
| "reference_loop size_of max_group_bytes (object # objects) st =
     reference_loop size_of max_group_bytes objects
       (reference_step max_group_bytes st object (size_of object))"

definition reference_group :: "(string \<Rightarrow> int) \<Rightarrow> string list \<Rightarrow> int \<Rightarrow> string list list" where
  "reference_group size_of objects max_group_bytes =
     (case reference_loop size_of max_group_bytes objects ([], [], 0) of
        (out, current, current_size) \<Rightarrow> if current \<noteq> [] then out @ [current] else out)"

text \<open>The total size of a group under a size function.\<close>

definition group_size :: "(string \<Rightarrow> int) \<Rightarrow> string list \<Rightarrow> int" where
  "group_size size_of g = sum_list (map size_of g)"

text \<open>A group is within the soft cap when its total does not exceed the budget, or when it is
  one object that alone exceeds it.\<close>

definition budget_ok :: "(string \<Rightarrow> int) \<Rightarrow> int \<Rightarrow> string list \<Rightarrow> bool" where
  "budget_ok size_of m g = (group_size size_of g \<le> m \<or> (\<exists>b. g = [b] \<and> m < size_of b))"

section \<open>The local file system\<close>

text \<open>
  The state the transfers change: the content of each local file, and the directories that
  \<^verbatim>\<open>os.makedirs\<close> has made sure exist (each with all its intermediate directories).
\<close>

record local_fs =
  files :: "string \<rightharpoonup> bytes"
  dirs :: "string set"

text \<open>
  The process environment: the working directory, and for each local operation the exception it
  raises, if any, in a given state (permission denied, a file in the way, a full disk).
\<close>

record host =
  cwd :: string
  makedirs_error :: "local_fs \<Rightarrow> string \<Rightarrow> exn option"
  open_error :: "local_fs \<Rightarrow> string \<Rightarrow> exn option"
  write_error :: "local_fs \<Rightarrow> string \<Rightarrow> bytes \<Rightarrow> exn option"

text \<open>\<^verbatim>\<open>os.makedirs(name, exist_ok=True)\<close>\<close>

definition makedirs :: "host \<Rightarrow> string \<Rightarrow> local_fs \<Rightarrow> (exn + unit) \<times> local_fs" where
  "makedirs h name s =
     (case makedirs_error h s name of
        Some e \<Rightarrow> (Inl e, s)
      | None \<Rightarrow> (Inr (), s\<lparr>dirs := insert name (dirs s)\<rparr>))"

text \<open>\<^verbatim>\<open>open(destination_file_name, 'wb')\<close> creates the file or truncates it.\<close>

definition open_wb :: "host \<Rightarrow> string \<Rightarrow> local_fs \<Rightarrow> (exn + unit) \<times> local_fs" where
  "open_wb h name s =
     (case open_error h s name of
        Some e \<Rightarrow> (Inl e, s)
      | None \<Rightarrow> (Inr (), s\<lparr>files := (files s)(name \<mapsto> [])\<rparr>))"

text \<open>\<^verbatim>\<open>dest_file.write(chunk)\<close> appends to the file.\<close>

definition file_write :: "host \<Rightarrow> string \<Rightarrow> bytes \<Rightarrow> local_fs \<Rightarrow> (exn + unit) \<times> local_fs" where
  "file_write h name chunk s =
     (case write_error h s name chunk of
        Some e \<Rightarrow> (Inl e, s)
      | None \<Rightarrow> (Inr (), s\<lparr>files := (files s)(name \<mapsto>
                    (case files s name of None \<Rightarrow> chunk | Some old \<Rightarrow> old @ chunk))\<rparr>))"

text \<open>\<^verbatim>\<open>source_file.read(n)\<close>: the next at most \<open>n\<close> bytes; at the end of the stream
  \<^verbatim>\<open>b""\<close>, or the exception the stream ends with.\<close>

definition remote_read :: "remote_file \<Rightarrow> nat \<Rightarrow> exn + (bytes \<times> remote_file)" where
  "remote_read f n =
     (if content f = [] then (case fault f of None \<Rightarrow> Inr ([], f) | Some e \<Rightarrow> Inl e)
      else Inr (take n (content f), f\<lparr>content := drop n (content f)\<rparr>))"

section \<open>Transfer\<close>

text \<open>
  \<^verbatim>\<open>
    for chunk in iter(lambda: source_file.read(1024 * 1024), b""):
        dest_file.write(chunk)
  \<close>
  with \<open>chunk_size\<close> for the constant \<^verbatim>\<open>1024 * 1024\<close>.
\<close>

definition chunk_size :: nat where
  "chunk_size = 1024 * 1024"

function copy_chunks :: "host \<Rightarrow> string \<Rightarrow> remote_file \<Rightarrow> local_fs \<Rightarrow> (exn + unit) \<times> local_fs" where
  "copy_chunks h dest source_file s =
     (case remote_read source_file chunk_size of
        Inl e \<Rightarrow> (Inl e, s)
      | Inr (chunk, source_file') \<Rightarrow>
          if chunk = [] then (Inr (), s)
          else (case file_write h dest chunk s of
                  (Inl e, s') \<Rightarrow> (Inl e, s')
                | (Inr _, s') \<Rightarrow> copy_chunks h dest source_file' s'))"
  by pat_completeness auto
termination
proof (relation "measure (\<lambda>(h, dest, source_file, s). length (content source_file))")
  show "wf (measure (\<lambda>(h, dest, source_file, s). length (content source_file)))" by simp
next
  fix h :: host and dest :: string and source_file :: remote_file and s :: local_fs
    and x :: "bytes \<times> remote_file" and chunk source_file' xa r s' u
  assume "remote_read source_file chunk_size = Inr x" "(chunk, source_file') = x" "chunk \<noteq> []"
  then show "((h, dest, source_file', s'), (h, dest, source_file, s))
      \<in> measure (\<lambda>(h, dest, source_file, s). length (content source_file))"
    by (auto simp: remote_read_def chunk_size_def split: if_splits option.splits)
qed

text \<open>
  \<^verbatim>\<open>
  def download_blob(fs, blob_path, destination_file_name):
      with fs.open(blob_path, 'rb') as source_file:
          with open(destination_file_name, 'wb') as dest_file:
              ...
  \<close>
\<close>

definition download_blob :: "host \<Rightarrow> gcsfs \<Rightarrow> string \<Rightarrow> string \<Rightarrow> local_fs \<Rightarrow> (exn + unit) \<times> local_fs" where
  "download_blob h fs blob_path destination_file_name s =
     (case open_rb fs blob_path of
        Inl e \<Rightarrow> (Inl e, s)
      | Inr source_file \<Rightarrow>
          (case open_wb h destination_file_name s of
             (Inl e, s') \<Rightarrow> (Inl e, s')
           | (Inr _, s') \<Rightarrow> copy_chunks h destination_file_name source_file s'))"

text \<open>
  \<^verbatim>\<open>
    relative_path = os.path.relpath(blob, start=f'{bucket_name}/')
    destination_file_name = os.path.join(destination_folder, relative_path)
  \<close>
\<close>

definition destination_of :: "host \<Rightarrow> string \<Rightarrow> string \<Rightarrow> string \<Rightarrow> exn + string" where
  "destination_of h bucket_name destination_folder blob =
     (case relpath (cwd h) blob (bucket_name @ ''/'') of
        Inl e \<Rightarrow> Inl e
      | Inr relative_path \<Rightarrow> Inr (join destination_folder [relative_path]))"

text \<open>One iteration of \<^verbatim>\<open>for blob in blobs\<close> in \<^verbatim>\<open>download_group\<close>.\<close>

definition download_group_step ::
  "host \<Rightarrow> gcsfs \<Rightarrow> string \<Rightarrow> string \<Rightarrow> string \<Rightarrow> local_fs \<Rightarrow> (exn + unit) \<times> local_fs" where
  "download_group_step h fs bucket_name destination_folder blob s =
     (case destination_of h bucket_name destination_folder blob of
        Inl e \<Rightarrow> (Inl e, s)
      | Inr destination_file_name \<Rightarrow>
          (case makedirs h (dirname destination_file_name) s of
             (Inl e, s') \<Rightarrow> (Inl e, s')
           | (Inr _, s') \<Rightarrow> download_blob h fs blob destination_file_name s'))"

fun download_group ::
  "host \<Rightarrow> gcsfs \<Rightarrow> string \<Rightarrow> string list \<Rightarrow> string \<Rightarrow> local_fs \<Rightarrow> (exn + unit) \<times> local_fs" where
  "download_group h fs bucket_name [] destination_folder s = (Inr (), s)"
| "download_group h fs bucket_name (blob # blobs) destination_folder s =
     (case download_group_step h fs bucket_name destination_folder blob s of
        (Inl e, s') \<Rightarrow> (Inl e, s')
      | (Inr _, s') \<Rightarrow> download_group h fs bucket_name blobs destination_folder s')"

text \<open>The destination as the specification's interface section words it: the object's path
  relative to the listing prefix, under the destination root.\<close>

definition prefix_relative_destination ::
  "host \<Rightarrow> string \<Rightarrow> string \<Rightarrow> string \<Rightarrow> string \<Rightarrow> exn + string" where
  "prefix_relative_destination h bucket_name prefix destination_folder blob =
     (case relpath (cwd h) blob (bucket_name @ ''/'' @ prefix) of
        Inl e \<Rightarrow> Inl e
      | Inr relative_path \<Rightarrow> Inr (join destination_folder [relative_path]))"

section \<open>The worker pool\<close>

text \<open>The lines the program prints.\<close>

datatype message =
    Found nat
  | Grouped nat
  | ErrorDownloading exn

text \<open>
  The pool runs every submitted task once. The tasks are modelled as running one at a time, each
  to its end, in the order \<open>order\<close> (positions in the list of groups), which is also the order in
  which \<^verbatim>\<open>as_completed\<close> yields them; with more than one worker any order can occur. A task's
  exception is kept in its future. A position that names no submitted group runs nothing.
\<close>

fun run_tasks ::
  "host \<Rightarrow> gcsfs \<Rightarrow> string \<Rightarrow> string \<Rightarrow> string list list \<Rightarrow> nat list \<Rightarrow> local_fs
     \<Rightarrow> (nat \<times> (exn + unit)) list \<times> local_fs" where
  "run_tasks h fs bucket_name destination_folder grouped_blobs [] s = ([], s)"
| "run_tasks h fs bucket_name destination_folder grouped_blobs (i # order) s =
     (if i < length grouped_blobs then
        (case download_group h fs bucket_name (grouped_blobs ! i) destination_folder s of
           (r, s') \<Rightarrow>
             (case run_tasks h fs bucket_name destination_folder grouped_blobs order s' of
                (futures, s'') \<Rightarrow> ((i, r) # futures, s'')))
      else run_tasks h fs bucket_name destination_folder grouped_blobs order s)"

text \<open>
  \<^verbatim>\<open>
    for future in tqdm(concurrent.futures.as_completed(futures), ...):
        try:
            future.result()
        except Exception as e:
            print(f"Error downloading files: {e}")
  \<close>
\<close>

fun collect_results :: "(nat \<times> (exn + unit)) list \<Rightarrow> message list" where
  "collect_results [] = []"
| "collect_results ((i, Inl e) # futures) = ErrorDownloading e # collect_results futures"
| "collect_results ((i, Inr u) # futures) = collect_results futures"

text \<open>The \<^verbatim>\<open>with concurrent.futures.ThreadPoolExecutor(max_workers=num_threads)\<close> block: the
  constructor raises \<^verbatim>\<open>ValueError\<close> for a worker count that is not positive; leaving the block
  waits for every task.\<close>

definition run_executor ::
  "host \<Rightarrow> gcsfs \<Rightarrow> string \<Rightarrow> string \<Rightarrow> string list list \<Rightarrow> int \<Rightarrow> nat list \<Rightarrow> local_fs
     \<Rightarrow> (exn + unit) \<times> local_fs \<times> message list" where
  "run_executor h fs bucket_name destination_folder grouped_blobs num_threads order s =
     (if num_threads \<le> 0 then (Inl (ValueError ''max_workers must be greater than 0''), s, [])
      else case run_tasks h fs bucket_name destination_folder grouped_blobs order s of
             (futures, s') \<Rightarrow> (Inr (), s', collect_results futures))"

text \<open>\<^verbatim>\<open>os.path.exists\<close>\<close>

definition path_exists :: "local_fs \<Rightarrow> string \<Rightarrow> bool" where
  "path_exists s p = (p \<in> dirs s \<or> files s p \<noteq> None)"

text \<open>\<^verbatim>\<open>download_all_files\<close>, given the \<^verbatim>\<open>GCSFileSystem\<close> object it constructs.\<close>

definition download_all_files ::
  "host \<Rightarrow> stdlib \<Rightarrow> gcsfs \<Rightarrow> nat list \<Rightarrow> string \<Rightarrow> string \<Rightarrow> int \<Rightarrow> int \<Rightarrow> local_fs
     \<Rightarrow> (exn + unit) \<times> local_fs \<times> message list" where
  "download_all_files h lib fs order gcs_path destination_folder max_size_mb num_threads s =
     (case (if \<not> path_exists s destination_folder then makedirs h destination_folder s
            else (Inr (), s)) of
        (Inl e, s1) \<Rightarrow> (Inl e, s1, [])
      | (Inr _, s1) \<Rightarrow>
          (case parse_gcs_path lib gcs_path of
             Inl e \<Rightarrow> (Inl e, s1, [])
           | Inr (bucket_name, prefix) \<Rightarrow>
               (case list_blobs fs bucket_name prefix of
                  Inl e \<Rightarrow> (Inl e, s1, [])
                | Inr blobs \<Rightarrow>
                    (case group_blobs_by_size fs blobs max_size_mb of
                       Inl e \<Rightarrow> (Inl e, s1, [Found (length blobs)])
                     | Inr grouped_blobs \<Rightarrow>
                         (case run_executor h fs bucket_name destination_folder grouped_blobs
                                 num_threads order s1 of
                            (r, s2, out) \<Rightarrow>
                              (r, s2, [Found (length blobs), Grouped (length grouped_blobs)] @ out))))))"

section \<open>Sample inputs\<close>

text \<open>A storage object used to run the definitions on concrete inputs: three objects of
  600000 bytes (the stream of the third breaks after two bytes), one of 2097152 bytes, an object
  \<^verbatim>\<open>data//a\<close> beside \<^verbatim>\<open>data/a\<close> whose stream breaks after one byte, and no other object.\<close>

definition sample_fs :: gcsfs where
  "sample_fs = \<lparr>
     ls = (\<lambda>p. Inr [''bkt/data/a'', ''bkt/data/b'', ''bkt/data/c'']),
     info = (\<lambda>p.
       if p \<in> {''bkt/data/a'', ''bkt/data/b'', ''bkt/data/c'', ''bkt/data//a''}
       then Inr [''size'' \<mapsto> 600000]
       else if p = ''bkt/data/big'' then Inr [''size'' \<mapsto> 2097152]
       else Inl (OSError ''not found'')),
     open_rb = (\<lambda>p.
       if p = ''bkt/data/a'' then Inr \<lparr>content = [1, 2, 3], fault = None\<rparr>
       else if p = ''bkt/data/b'' then Inr \<lparr>content = [4, 5], fault = None\<rparr>
       else if p = ''bkt/data/c'' then Inr \<lparr>content = [6, 7], fault = Some (HttpError ''reset'')\<rparr>
       else if p = ''bkt/data//a'' then Inr \<lparr>content = [9], fault = Some (HttpError ''reset'')\<rparr>
       else Inl (OSError ''not found''))\<rparr>"

definition sample_stdlib :: stdlib where
  "sample_stdlib = \<lparr>
     check_bracketed_host = (\<lambda>h. if h = ''::1'' then None
        else Some (ValueError (h @ '' does not appear to be an IPv4 or IPv6 address''))),
     nfkc_normalize = (\<lambda>s. s)\<rparr>"

definition sample_host :: host where
  "sample_host = \<lparr>
     cwd = ''/home/user'',
     makedirs_error = (\<lambda>s name. if name = ''/readonly/data'' then Some (OSError ''permission denied'') else None),
     open_error = (\<lambda>s name. None),
     write_error = (\<lambda>s name chunk. None)\<rparr>"

definition empty_disk :: local_fs where
  "empty_disk = \<lparr>files = Map.empty, dirs = {}\<rparr>"

definition sample_size :: "string \<Rightarrow> int" where
  "sample_size p = (if p = ''bkt/data/big'' then 2097152 else 600000)"

section \<open>Properties of the grouping\<close>

lemma sample_sizes [simp]:
  "get_blob_size sample_fs ''bkt/data/a'' = Inr 600000"
  "get_blob_size sample_fs ''bkt/data/b'' = Inr 600000"
  "get_blob_size sample_fs ''bkt/data/c'' = Inr 600000"
  "get_blob_size sample_fs ''bkt/data/big'' = Inr 2097152"
  "get_blob_size sample_fs ''bkt/data/gone'' = Inl (OSError ''not found'')"
  by (simp_all add: get_blob_size_def sample_fs_def)

lemma group_loop_concat:
  "group_loop fs m blobs (g, c, s) = Inr (g', c', s') \<Longrightarrow> concat g' @ c' = concat g @ c @ blobs"
proof (induction blobs arbitrary: g c s)
  case Nil
  then show ?case by simp
next
  case (Cons blob blobs)
  then show ?case
    by (cases "get_blob_size fs blob") (auto split: if_splits)
qed

lemma group_loop_total:
  "\<forall>b\<in>set blobs. \<exists>n. get_blob_size fs b = Inr n \<Longrightarrow> \<exists>st'. group_loop fs m blobs st = Inr st'"
proof (induction blobs arbitrary: st)
  case Nil
  show ?case by (cases st) simp
next
  case (Cons blob blobs)
  then obtain n where n: "get_blob_size fs blob = Inr n" by auto
  from Cons.prems have "\<forall>b\<in>set blobs. \<exists>n. get_blob_size fs b = Inr n" by simp
  from Cons.IH [OF this] show ?case by (simp add: n)
qed

lemma group_blobs_by_size_returns:
  assumes "\<forall>b\<in>set blobs. \<exists>n. get_blob_size fs b = Inr n"
  shows "\<exists>groups. group_blobs_by_size fs blobs max_size_mb = Inr groups"
proof -
  obtain st' where "group_loop fs (max_size_mb * 1024 * 1024) blobs ([], [], 0) = Inr st'"
    using group_loop_total [OF assms] by blast
  then show ?thesis
    by (cases st') (simp add: group_blobs_by_size_def)
qed

lemma group_blobs_by_size_concat_if_returns:
  assumes "group_blobs_by_size fs blobs max_size_mb = Inr groups"
  shows "concat groups = blobs"
proof -
  from assms obtain g c s
    where loop: "group_loop fs (max_size_mb * 1024 * 1024) blobs ([], [], 0) = Inr (g, c, s)"
      and groups: "groups = (if c \<noteq> [] then g @ [c] else g)"
    by (auto simp: group_blobs_by_size_def split: sum.splits)
  from group_loop_concat [OF loop] have "concat g @ c = blobs" by simp
  with groups show ?thesis by auto
qed

text \<open>
  C1. Whenever the size oracle answers for every listed object, \<open>group_blobs_by_size\<close> returns,
  and the concatenation of the returned groups, in group order and then in the order inside
  each group, is the input list itself, for every budget.
\<close>

theorem group_blobs_by_size_partition:
  assumes "\<forall>b\<in>set blobs. \<exists>n. get_blob_size fs b = Inr n"
  shows "\<exists>groups. group_blobs_by_size fs blobs max_size_mb = Inr groups \<and> concat groups = blobs"
proof -
  obtain groups where "group_blobs_by_size fs blobs max_size_mb = Inr groups"
    using group_blobs_by_size_returns [OF assms] by blast
  then show ?thesis
    using group_blobs_by_size_concat_if_returns by blast
qed

theorem group_blobs_by_size_partition_witness:
  "\<exists>groups.
     group_blobs_by_size sample_fs [''bkt/data/a'', ''bkt/data/b'', ''bkt/data/c''] 1 = Inr groups
     \<and> concat groups = [''bkt/data/a'', ''bkt/data/b'', ''bkt/data/c'']"
  by (rule group_blobs_by_size_partition) simp

lemma group_loop_failure:
  "b \<in> set blobs \<Longrightarrow> get_blob_size fs b = Inl e \<Longrightarrow> \<exists>e'. group_loop fs m blobs st = Inl e'"
proof (induction blobs arbitrary: st)
  case Nil
  then show ?case by simp
next
  case (Cons blob blobs)
  show ?case
  proof (cases "get_blob_size fs blob")
    case (Inl e0)
    then show ?thesis by simp
  next
    case (Inr n)
    with Cons.prems have "b \<in> set blobs" by auto
    from Cons.IH [OF this Cons.prems(2)] show ?thesis by (simp add: Inr)
  qed
qed

lemma group_size_simps [simp]:
  "group_size size_of [] = 0"
  "group_size size_of (c @ [b]) = group_size size_of c + size_of b"
  "group_size size_of [b] = size_of b"
  by (simp_all add: group_size_def)

lemma budget_ok_single: "budget_ok size_of m [b]"
  by (cases "size_of b \<le> m") (simp_all add: budget_ok_def)

lemma budget_ok_append:
  "s = group_size size_of c \<Longrightarrow> \<not> s + size_of b > m \<Longrightarrow> budget_ok size_of m (c @ [b])"
  by (simp add: budget_ok_def)

lemma group_loop_budget:
  assumes "\<forall>b\<in>set blobs. get_blob_size fs b = Inr (size_of b)"
      and "group_loop fs m blobs (g, c, s) = Inr (g', c', s')"
      and "s = group_size size_of c"
      and "\<forall>x\<in>set g. budget_ok size_of m x"
      and "budget_ok size_of m c"
  shows "(\<forall>x\<in>set g'. budget_ok size_of m x) \<and> budget_ok size_of m c'"
  using assms
proof (induction blobs arbitrary: g c s)
  case Nil
  then show ?case by simp
next
  case (Cons blob blobs)
  have sz: "get_blob_size fs blob = Inr (size_of blob)" using Cons.prems(1) by simp
  have rest: "\<forall>b\<in>set blobs. get_blob_size fs b = Inr (size_of b)" using Cons.prems(1) by simp
  show ?case
  proof (cases "s + size_of blob > m")
    case True
    with Cons.prems(2) sz
    have loop: "group_loop fs m blobs (g @ [c], [blob], size_of blob) = Inr (g', c', s')" by simp
    have a: "size_of blob = group_size size_of [blob]" by simp
    have b: "\<forall>x\<in>set (g @ [c]). budget_ok size_of m x" using Cons.prems(4,5) by simp
    show ?thesis
      by (rule Cons.IH [OF rest loop a b budget_ok_single])
  next
    case False
    with Cons.prems(2) sz
    have loop: "group_loop fs m blobs (g, c @ [blob], s + size_of blob) = Inr (g', c', s')" by simp
    have a: "s + size_of blob = group_size size_of (c @ [blob])" using Cons.prems(3) by simp
    show ?thesis
      by (rule Cons.IH [OF rest loop a Cons.prems(4) budget_ok_append [OF Cons.prems(3) False]])
  qed
qed

lemma group_loop_strict:
  assumes "\<forall>b\<in>set blobs. get_blob_size fs b = Inr (size_of b)"
      and "\<forall>b\<in>set blobs. size_of b \<le> m"
      and "group_loop fs m blobs (g, c, s) = Inr (g', c', s')"
      and "s = group_size size_of c"
      and "\<forall>x\<in>set g. x \<noteq> [] \<and> group_size size_of x \<le> m"
      and "c \<noteq> [] \<longrightarrow> s \<le> m"
  shows "(\<forall>x\<in>set g'. x \<noteq> [] \<and> group_size size_of x \<le> m)
         \<and> (c' \<noteq> [] \<longrightarrow> group_size size_of c' \<le> m)"
  using assms
proof (induction blobs arbitrary: g c s)
  case Nil
  then show ?case by simp
next
  case (Cons blob blobs)
  have sz: "get_blob_size fs blob = Inr (size_of blob)" using Cons.prems(1) by simp
  have rest: "\<forall>b\<in>set blobs. get_blob_size fs b = Inr (size_of b)" using Cons.prems(1) by simp
  have rest2: "\<forall>b\<in>set blobs. size_of b \<le> m" using Cons.prems(2) by simp
  have le: "size_of blob \<le> m" using Cons.prems(2) by simp
  show ?case
  proof (cases "s + size_of blob > m")
    case True
    with Cons.prems(3) sz
    have loop: "group_loop fs m blobs (g @ [c], [blob], size_of blob) = Inr (g', c', s')" by simp
    have ne: "c \<noteq> []"
    proof
      assume "c = []"
      with Cons.prems(4) have "s = 0" by simp
      with True le show False by simp
    qed
    with Cons.prems(6) have "s \<le> m" by simp
    with ne Cons.prems(4,5)
    have b: "\<forall>x\<in>set (g @ [c]). x \<noteq> [] \<and> group_size size_of x \<le> m" by simp
    have a: "size_of blob = group_size size_of [blob]" by simp
    have c: "[blob] \<noteq> [] \<longrightarrow> size_of blob \<le> m" using le by simp
    show ?thesis by (rule Cons.IH [OF rest rest2 loop a b c])
  next
    case False
    with Cons.prems(3) sz
    have loop: "group_loop fs m blobs (g, c @ [blob], s + size_of blob) = Inr (g', c', s')" by simp
    have a: "s + size_of blob = group_size size_of (c @ [blob])" using Cons.prems(4) by simp
    have c: "c @ [blob] \<noteq> [] \<longrightarrow> s + size_of blob \<le> m" using False by simp
    show ?thesis by (rule Cons.IH [OF rest rest2 loop a Cons.prems(5) c])
  qed
qed

text \<open>Once the current group is non-empty the program and the reference take the same steps.\<close>

lemma group_loop_reference:
  assumes "\<forall>b\<in>set blobs. get_blob_size fs b = Inr (size_of b)"
      and "c \<noteq> []"
  shows "group_loop fs m blobs (g, c, s) = Inr (reference_loop size_of m blobs (g, c, s))"
  using assms
proof (induction blobs arbitrary: g c s)
  case Nil
  then show ?case by simp
next
  case (Cons blob blobs)
  have sz: "get_blob_size fs blob = Inr (size_of blob)" using Cons.prems(1) by simp
  have rest: "\<forall>b\<in>set blobs. get_blob_size fs b = Inr (size_of b)" using Cons.prems(1) by simp
  show ?case
  proof (cases "s + size_of blob > m")
    case True
    then show ?thesis using Cons.prems(2) sz Cons.IH [OF rest, of "[blob]"] by simp
  next
    case False
    then show ?thesis using Cons.prems(2) sz Cons.IH [OF rest, of "c @ [blob]"] by simp
  qed
qed

lemma reference_loop_shift:
  "c \<noteq> [] \<Longrightarrow> reference_loop size_of m blobs (x # g, c, s) = (g', c', s')
     \<Longrightarrow> \<exists>g''. g' = x # g'' \<and> reference_loop size_of m blobs (g, c, s) = (g'', c', s')"
proof (induction blobs arbitrary: g c s)
  case Nil
  then show ?case by simp
next
  case (Cons blob blobs)
  show ?case
  proof (cases "s + size_of blob > m")
    case True
    with Cons.prems
    have "reference_loop size_of m blobs (x # (g @ [c]), [blob], size_of blob) = (g', c', s')" by simp
    from Cons.IH [OF _ this] True Cons.prems(1) show ?thesis by simp
  next
    case False
    with Cons.prems
    have "reference_loop size_of m blobs (x # g, c @ [blob], s + size_of blob) = (g', c', s')" by simp
    from Cons.IH [OF _ this] False show ?thesis by simp
  qed
qed

lemma reference_loop_nonempty:
  "c \<noteq> [] \<Longrightarrow> reference_loop size_of m blobs (g, c, s) = (g', c', s') \<Longrightarrow> c' \<noteq> []"
proof (induction blobs arbitrary: g c s)
  case Nil
  then show ?case by simp
next
  case (Cons blob blobs)
  show ?case
  proof (cases "s + size_of blob > m")
    case True
    with Cons.prems
    have "reference_loop size_of m blobs (g @ [c], [blob], size_of blob) = (g', c', s')" by simp
    from Cons.IH [OF _ this] show ?thesis by simp
  next
    case False
    with Cons.prems
    have "reference_loop size_of m blobs (g, c @ [blob], s + size_of blob) = (g', c', s')" by simp
    from Cons.IH [OF _ this] show ?thesis by simp
  qed
qed

text \<open>The program against the reference: equal unless the first object is larger than the
  budget, where the program returns the reference's groups after one empty group.\<close>

lemma group_blobs_by_size_reference:
  assumes "\<forall>b\<in>set blobs. get_blob_size fs b = Inr (size_of b)"
  shows "group_blobs_by_size fs blobs max_size_mb =
     Inr (if blobs \<noteq> [] \<and> max_size_mb * 1024 * 1024 < size_of (hd blobs)
          then [] # reference_group size_of blobs (max_size_mb * 1024 * 1024)
          else reference_group size_of blobs (max_size_mb * 1024 * 1024))"
proof (cases blobs)
  case Nil
  then show ?thesis by (simp add: group_blobs_by_size_def reference_group_def)
next
  case (Cons blob rest)
  let ?m = "max_size_mb * 1024 * 1024"
  have sz: "get_blob_size fs blob = Inr (size_of blob)" using assms Cons by simp
  have rest: "\<forall>b\<in>set rest. get_blob_size fs b = Inr (size_of b)" using assms Cons by simp
  show ?thesis
  proof (cases "?m < size_of blob")
    case True
    obtain g' c' s' where r: "reference_loop size_of ?m rest ([[]], [blob], size_of blob) = (g', c', s')"
      by (cases "reference_loop size_of ?m rest ([[]], [blob], size_of blob)") auto
    from reference_loop_shift [OF _ r] obtain g'' where
      g'': "g' = [] # g''" "reference_loop size_of ?m rest ([], [blob], size_of blob) = (g'', c', s')"
      by auto
    have ne: "c' \<noteq> []" using reference_loop_nonempty [OF _ r] by simp
    have "group_loop fs ?m blobs ([], [], 0) = Inr (g', c', s')"
      using True sz Cons group_loop_reference [OF rest, of "[blob]" ?m "[[]]" "size_of blob"] r by simp
    moreover have "reference_loop size_of ?m blobs ([], [], 0) = (g'', c', s')"
      using Cons g''(2) by simp
    ultimately show ?thesis using True Cons ne g''(1)
      by (simp add: group_blobs_by_size_def reference_group_def)
  next
    case False
    have "group_loop fs ?m blobs ([], [], 0) = Inr (reference_loop size_of ?m blobs ([], [], 0))"
      using False sz Cons group_loop_reference [OF rest, of "[blob]" ?m "[]" "size_of blob"] by simp
    then show ?thesis using False Cons
      by (simp add: group_blobs_by_size_def reference_group_def split: prod.splits)
  qed
qed

lemma group_loop_keeps_head:
  "group_loop fs m blobs (x # g, c, s) = Inr (g', c', s') \<Longrightarrow> \<exists>g''. g' = x # g''"
proof (induction blobs arbitrary: g c s)
  case Nil
  then show ?case by auto
next
  case (Cons blob blobs)
  show ?case
  proof (cases "get_blob_size fs blob")
    case (Inl e)
    with Cons.prems show ?thesis by simp
  next
    case (Inr n)
    show ?thesis
    proof (cases "s + n > m")
      case True
      with Cons.prems Inr
      have "group_loop fs m blobs (x # (g @ [c]), [blob], n) = Inr (g', c', s')" by simp
      then show ?thesis by (rule Cons.IH)
    next
      case False
      with Cons.prems Inr
      have "group_loop fs m blobs (x # g, c @ [blob], s + n) = Inr (g', c', s')" by simp
      then show ?thesis by (rule Cons.IH)
    qed
  qed
qed

text \<open>
  C2. When the size oracle answers for every listed object, \<open>group_blobs_by_size\<close> returns, and
  if the budget is at least every object's size, every returned group is non-empty and its total
  size does not exceed the budget. For any non-negative budget the only groups above the budget
  are singletons of one object that alone exceeds it.
\<close>

theorem group_blobs_by_size_within_budget:
  assumes "\<forall>b\<in>set blobs. get_blob_size fs b = Inr (size_of b)"
  shows "\<exists>groups. group_blobs_by_size fs blobs max_size_mb = Inr groups
     \<and> ((\<forall>b\<in>set blobs. size_of b \<le> max_size_mb * 1024 * 1024) \<longrightarrow>
          (\<forall>g\<in>set groups. g \<noteq> [] \<and> group_size size_of g \<le> max_size_mb * 1024 * 1024))
     \<and> (0 \<le> max_size_mb \<longrightarrow>
          (\<forall>g\<in>set groups. group_size size_of g \<le> max_size_mb * 1024 * 1024
             \<or> (\<exists>b. g = [b] \<and> max_size_mb * 1024 * 1024 < size_of b)))"
proof -
  let ?m = "max_size_mb * 1024 * 1024"
  have "\<forall>b\<in>set blobs. \<exists>n. get_blob_size fs b = Inr n" using assms by simp
  from group_loop_total [OF this] obtain g c s
    where loop: "group_loop fs ?m blobs ([], [], 0) = Inr (g, c, s)"
    by (metis prod_cases3)
  let ?groups = "if c \<noteq> [] then g @ [c] else g"
  have ret: "group_blobs_by_size fs blobs max_size_mb = Inr ?groups"
    using loop by (simp add: group_blobs_by_size_def)
  have strict: "\<forall>x\<in>set ?groups. x \<noteq> [] \<and> group_size size_of x \<le> ?m"
    if le: "\<forall>b\<in>set blobs. size_of b \<le> ?m"
  proof -
    have "(\<forall>x\<in>set g. x \<noteq> [] \<and> group_size size_of x \<le> ?m)
          \<and> (c \<noteq> [] \<longrightarrow> group_size size_of c \<le> ?m)"
      by (rule group_loop_strict [OF assms le loop]) simp_all
    then show ?thesis by simp
  qed
  have soft: "\<forall>x\<in>set ?groups. budget_ok size_of ?m x" if nonneg: "0 \<le> max_size_mb"
  proof -
    have "budget_ok size_of ?m []" using nonneg by (simp add: budget_ok_def)
    then have "(\<forall>x\<in>set g. budget_ok size_of ?m x) \<and> budget_ok size_of ?m c"
      by (intro group_loop_budget [OF assms loop]) simp_all
    then show ?thesis by simp
  qed
  show ?thesis
    using ret strict soft unfolding budget_ok_def by blast
qed

theorem group_blobs_by_size_within_budget_witness:
  "\<exists>groups.
     group_blobs_by_size sample_fs [''bkt/data/a'', ''bkt/data/b'', ''bkt/data/c''] 1 = Inr groups
     \<and> (\<forall>g\<in>set groups. g \<noteq> [] \<and> group_size sample_size g \<le> 1 * 1024 * 1024)
     \<and> (\<forall>g\<in>set groups. group_size sample_size g \<le> 1 * 1024 * 1024
           \<or> (\<exists>b. g = [b] \<and> 1 * 1024 * 1024 < sample_size b))"
proof -
  have sizes: "\<forall>b\<in>set [''bkt/data/a'', ''bkt/data/b'', ''bkt/data/c''].
      get_blob_size sample_fs b = Inr (sample_size b)"
    by (simp add: sample_size_def)
  have le: "\<forall>b\<in>set [''bkt/data/a'', ''bkt/data/b'', ''bkt/data/c'']. sample_size b \<le> 1 * 1024 * 1024"
    by (simp add: sample_size_def)
  show ?thesis
    using group_blobs_by_size_within_budget [OF sizes, of 1] le by auto
qed

text \<open>
  C9. If the size lookup fails for one object of the list, \<open>group_blobs_by_size\<close> raises: it returns
  no groups at all, neither for the objects before the failing one nor for those after it.
\<close>

theorem group_blobs_by_size_metadata_failure:
  assumes "b \<in> set blobs" and "get_blob_size fs b = Inl e"
  shows "\<exists>e'. group_blobs_by_size fs blobs max_size_mb = Inl e'"
proof -
  from group_loop_failure [OF assms]
  obtain e' where "group_loop fs (max_size_mb * 1024 * 1024) blobs ([], [], 0) = Inl e'" by blast
  then show ?thesis by (simp add: group_blobs_by_size_def)
qed

theorem group_blobs_by_size_metadata_failure_witness:
  "''bkt/data/gone'' \<in> set [''bkt/data/a'', ''bkt/data/gone'', ''bkt/data/b'']
   \<and> get_blob_size sample_fs ''bkt/data/gone'' = Inl (OSError ''not found'')
   \<and> (\<exists>e'. group_blobs_by_size sample_fs [''bkt/data/a'', ''bkt/data/gone'', ''bkt/data/b''] 1 = Inl e')"
proof -
  have m: "''bkt/data/gone'' \<in> set [''bkt/data/a'', ''bkt/data/gone'', ''bkt/data/b'']" by simp
  have f: "get_blob_size sample_fs ''bkt/data/gone'' = Inl (OSError ''not found'')" by simp
  from group_blobs_by_size_metadata_failure [OF m f] m f show ?thesis by blast
qed

text \<open>
  C10. If the first object is larger than the budget (and every size lookup succeeds), the
  returned sequence begins with an empty group.
\<close>

theorem group_blobs_by_size_leading_empty_group:
  assumes "\<forall>b\<in>set rest. \<exists>n. get_blob_size fs b = Inr n"
      and "get_blob_size fs blob = Inr blob_size"
      and "max_size_mb * 1024 * 1024 < blob_size"
  shows "\<exists>groups. group_blobs_by_size fs (blob # rest) max_size_mb = Inr ([] # groups)"
proof -
  let ?m = "max_size_mb * 1024 * 1024"
  from group_loop_total [OF assms(1)] obtain g c s
    where loop: "group_loop fs ?m rest ([[]], [blob], blob_size) = Inr (g, c, s)"
    by (metis prod_cases3)
  from group_loop_keeps_head [OF loop] obtain g'' where g: "g = [] # g''" by blast
  have "group_loop fs ?m (blob # rest) ([], [], 0) = Inr (g, c, s)"
    using assms(2,3) loop by simp
  then show ?thesis
    using g by (simp add: group_blobs_by_size_def)
qed

theorem group_blobs_by_size_leading_empty_group_witness:
  "\<exists>groups. group_blobs_by_size sample_fs (''bkt/data/big'' # [''bkt/data/a'', ''bkt/data/b'']) 1
      = Inr ([] # groups)"
  by (rule group_blobs_by_size_leading_empty_group [where blob_size = 2097152]) simp_all

text \<open>
  C3. The program against the reference algorithm on a listing whose first object (2097152 bytes)
  exceeds a budget of one megabyte: the program returns an empty group first, the reference does
  not. The final \<^verbatim>\<open>if current_group:\<close> keeps an empty group out of the result; the append inside the
  loop has no such test.
\<close>

theorem group_blobs_by_size_empty_group_example:
  "group_blobs_by_size sample_fs [''bkt/data/big'', ''bkt/data/a''] 1
     = Inr [[], [''bkt/data/big''], [''bkt/data/a'']]
   \<and> reference_group sample_size [''bkt/data/big'', ''bkt/data/a''] (1 * 1024 * 1024)
     = [[''bkt/data/big''], [''bkt/data/a'']]"
  by (simp add: group_blobs_by_size_def reference_group_def sample_size_def)

section \<open>Properties of the path parser\<close>

lemma find_char_takeWhile:
  "find_char c v = (if c \<in> set v then Some (length (takeWhile (\<lambda>x. x \<noteq> c) v)) else None)"
  by (induction v) auto

lemma takeWhile3_length:
  "length (takeWhile (\<lambda>x. x \<noteq> a \<and> x \<noteq> b \<and> x \<noteq> c) v)
     = min (length (takeWhile (\<lambda>x. x \<noteq> a) v))
         (min (length (takeWhile (\<lambda>x. x \<noteq> b) v)) (length (takeWhile (\<lambda>x. x \<noteq> c) v)))"
  by (induction v) auto

lemma takeWhile_absent: "c \<notin> set v \<Longrightarrow> takeWhile (\<lambda>x. x \<noteq> c) v = v"
  by (induction v) auto

lemma find_from_step:
  assumes "d \<le> start + length (drop start url)"
  shows "(case find_from c url start of Some wdelim \<Rightarrow> min d wdelim | None \<Rightarrow> d)
         = min d (start + length (takeWhile (\<lambda>x. x \<noteq> c) (drop start url)))"
proof (cases "c \<in> set (drop start url)")
  case True
  then show ?thesis by (simp add: find_from_def find_char_takeWhile add.commute)
next
  case False
  then have tw: "takeWhile (\<lambda>x. x \<noteq> c) (drop start url) = drop start url"
    by (rule takeWhile_absent)
  have "find_from c url start = None"
    using False by (simp add: find_from_def find_char_takeWhile)
  then show ?thesis using assms unfolding tw by simp
qed

lemma find_from_fold3:
  assumes "start \<le> length url"
  shows "fold (\<lambda>c delim. case find_from c url start of Some wdelim \<Rightarrow> min delim wdelim | None \<Rightarrow> delim)
           [a, b, c] (length url)
         = start + length (takeWhile (\<lambda>x. x \<noteq> a \<and> x \<noteq> b \<and> x \<noteq> c) (drop start url))"
proof -
  define v where "v = drop start url"
  define A where "A = length (takeWhile (\<lambda>x. x \<noteq> a) v)"
  define B where "B = length (takeWhile (\<lambda>x. x \<noteq> b) v)"
  define C where "C = length (takeWhile (\<lambda>x. x \<noteq> c) v)"
  have len: "length url = start + length v" using assms by (simp add: v_def)
  have le: "A \<le> length v" "B \<le> length v" "C \<le> length v"
    by (simp_all add: A_def B_def C_def length_takeWhile_le)
  have d1: "(case find_from a url start of Some w \<Rightarrow> min (length url) w | None \<Rightarrow> length url)
              = min (length url) (start + A)"
    unfolding A_def v_def by (rule find_from_step) (simp add: assms)
  have d2: "(case find_from b url start of Some w \<Rightarrow> min (min (length url) (start + A)) w
               | None \<Rightarrow> min (length url) (start + A))
              = min (min (length url) (start + A)) (start + B)"
    unfolding B_def v_def by (rule find_from_step) (simp add: assms)
  have d3: "(case find_from c url start of
                Some w \<Rightarrow> min (min (min (length url) (start + A)) (start + B)) w
              | None \<Rightarrow> min (min (length url) (start + A)) (start + B))
              = min (min (min (length url) (start + A)) (start + B)) (start + C)"
    unfolding C_def v_def by (rule find_from_step) (simp add: assms)
  have "fold (\<lambda>c delim. case find_from c url start of Some wdelim \<Rightarrow> min delim wdelim | None \<Rightarrow> delim)
           [a, b, c] (length url)
        = min (min (min (length url) (start + A)) (start + B)) (start + C)"
    by (simp only: fold_simps d1 d2 d3 o_apply id_apply)
  also have "\<dots> = start + min A (min B C)" using le len by (simp add: min_def)
  also have "min A (min B C) = length (takeWhile (\<lambda>x. x \<noteq> a \<and> x \<noteq> b \<and> x \<noteq> c) v)"
    unfolding A_def B_def C_def by (rule takeWhile3_length [symmetric])
  finally show ?thesis unfolding v_def .
qed

lemma splitnetloc_delim:
  assumes "start \<le> length url"
  shows "fold (\<lambda>c delim. case find_from c url start of Some wdelim \<Rightarrow> min delim wdelim | None \<Rightarrow> delim)
           ''/?#'' (length url)
         = start + length (takeWhile (\<lambda>c. c \<notin> set ''/?#'') (drop start url))"
proof -
  have P: "(\<lambda>c. c \<notin> set ''/?#'') = (\<lambda>x. x \<noteq> CHR ''/'' \<and> x \<noteq> CHR ''?'' \<and> x \<noteq> CHR ''#'')"
    by auto
  show ?thesis unfolding P by (rule find_from_fold3 [OF assms])
qed

lemma splitnetloc_takeWhile:
  assumes "start \<le> length url"
  shows "splitnetloc url start
         = (takeWhile (\<lambda>c. c \<notin> set ''/?#'') (drop start url),
            dropWhile (\<lambda>c. c \<notin> set ''/?#'') (drop start url))"
proof -
  let ?P = "\<lambda>c. c \<notin> set ''/?#''"
  let ?v = "drop start url"
  have "splitnetloc url start
        = (take (length (takeWhile ?P ?v)) ?v, drop (start + length (takeWhile ?P ?v)) url)"
    unfolding splitnetloc_def splitnetloc_delim [OF assms] by (simp add: Let_def)
  also have "take (length (takeWhile ?P ?v)) ?v = takeWhile ?P ?v"
    by (simp add: takeWhile_eq_take [symmetric])
  also have "drop (start + length (takeWhile ?P ?v)) url = dropWhile ?P ?v"
    by (simp add: dropWhile_eq_drop add.commute)
  finally show ?thesis .
qed

lemma startswith_gs: "startswith p ''gs://'' \<Longrightarrow> p = ''gs://'' @ drop 5 p"
proof -
  assume "startswith p ''gs://''"
  then have "take 5 p = ''gs://''" by (simp add: startswith_def eval_nat_numeral)
  then have "take 5 p @ drop 5 p = ''gs://'' @ drop 5 p" by simp
  then show ?thesis by (simp only: append_take_drop_id)
qed

lemma fold_remove_char: "fold remove_char cs s = filter (\<lambda>c. c \<notin> set cs) s"
proof (induction cs arbitrary: s)
  case Nil
  show ?case by simp
next
  case (Cons a cs)
  have "fold remove_char (a # cs) s = fold remove_char cs (remove_char a s)" by simp
  also have "\<dots> = filter (\<lambda>c. c \<notin> set cs) (remove_char a s)" by (rule Cons.IH)
  also have "\<dots> = filter (\<lambda>c. c \<notin> set (a # cs)) s"
    by (auto simp: remove_char_def intro: filter_cong)
  finally show ?case .
qed

lemma takeWhile_takeWhile:
  "takeWhile P (takeWhile Q xs) = takeWhile (\<lambda>x. P x \<and> Q x) xs"
  by (induction xs) auto

lemma split_scheme_gs: "split_scheme '''' (''gs://'' @ u) = (''gs'', ''//'' @ u)"
  by (simp add: split_scheme_def isascii_def ascii_isalpha_def scheme_chars_def ascii_lower_def)

lemma clean_gs:
  assumes "startswith p ''gs://''"
  shows "fold remove_char unsafe_url_bytes_to_remove (dropWhile c0_control_or_space p)
         = ''gs://'' @ url_remainder p"
proof -
  define r where "r = drop 5 p"
  have p: "p = ''gs://'' @ r" unfolding r_def using assms by (rule startswith_gs)
  have d: "dropWhile c0_control_or_space (''gs://'' @ r) = ''gs://'' @ r"
    by (simp add: c0_control_or_space_def)
  have f: "filter (\<lambda>c. c \<notin> set unsafe_url_bytes_to_remove) (''gs://'' @ r)
        = ''gs://'' @ filter (\<lambda>c. c \<notin> set unsafe_url_bytes_to_remove) r"
    by (simp add: unsafe_url_bytes_to_remove_def)
  have "url_remainder p = filter (\<lambda>c. c \<notin> set unsafe_url_bytes_to_remove) r"
    by (simp add: url_remainder_def r_def)
  then show ?thesis
    unfolding fold_remove_char by (subst p, subst d) (simp only: f)
qed

lemma split_authority_slashes:
  "split_authority lib (''//'' @ u) =
     (let a = takeWhile (\<lambda>c. c \<notin> set ''/?#'') u; rest = dropWhile (\<lambda>c. c \<notin> set ''/?#'') u in
      if (CHR ''['' \<in> set a \<and> CHR '']'' \<notin> set a) \<or> (CHR '']'' \<in> set a \<and> CHR ''['' \<notin> set a)
      then Inl (ValueError ''Invalid IPv6 URL'')
      else if CHR ''['' \<in> set a \<and> CHR '']'' \<in> set a
      then (case check_bracketed_host lib (bracketed_host_of a) of
              Some e \<Rightarrow> Inl e | None \<Rightarrow> Inr (a, rest))
      else Inr (a, rest))"
proof -
  have "splitnetloc (''//'' @ u) 2
        = (takeWhile (\<lambda>c. c \<notin> set ''/?#'') u, dropWhile (\<lambda>c. c \<notin> set ''/?#'') u)"
    using splitnetloc_takeWhile [of 2 "''//'' @ u"] by simp
  then show ?thesis by (simp add: split_authority_def Let_def)
qed

lemma split_tail:
  "\<exists>q f. \<forall>F.
     (case (if ca \<in> set v then split_first ca v else (v, [])) of
        (w, fr) \<Rightarrow>
          (case (if cb \<in> set w then split_first cb w else (w, [])) of
             (x6, qu) \<Rightarrow> F x6 qu fr))
     = F (takeWhile (\<lambda>x. x \<noteq> cb) (takeWhile (\<lambda>x. x \<noteq> ca) v)) q f"
proof -
  let ?w = "takeWhile (\<lambda>x. x \<noteq> ca) v"
  have a: "(if ca \<in> set v then split_first ca v else (v, []))
           = (?w, if ca \<in> set v then drop 1 (dropWhile (\<lambda>x. x \<noteq> ca) v) else [])"
    by (simp add: split_first_def takeWhile_absent)
  have b: "(if cb \<in> set ?w then split_first cb ?w else (?w, []))
           = (takeWhile (\<lambda>x. x \<noteq> cb) ?w,
              if cb \<in> set ?w then drop 1 (dropWhile (\<lambda>x. x \<noteq> cb) ?w) else [])"
    by (simp add: split_first_def takeWhile_absent)
  show ?thesis
    unfolding a prod.case b by blast
qed

lemma urlsplit_gs:
  assumes "startswith p ''gs://''"
  shows "\<exists>q f. urlsplit lib p =
     (case authority_error lib (url_authority p) of
        Some e \<Rightarrow> Inl e
      | None \<Rightarrow> Inr \<lparr>scheme = ''gs'', netloc = url_authority p, path = url_path p,
                      query = q, fragment = f\<rparr>)"
proof -
  define rest where "rest = dropWhile (\<lambda>c. c \<notin> set ''/?#'') (url_remainder p)"
  define a where "a = url_authority p"
  have path: "takeWhile (\<lambda>x. x \<noteq> CHR ''?'') (takeWhile (\<lambda>x. x \<noteq> CHR ''#'') rest) = url_path p"
    unfolding url_path_def takeWhile_takeWhile rest_def
    by (rule arg_cong [where f = "\<lambda>P. takeWhile P (dropWhile (\<lambda>c. c \<notin> set ''/?#'') (url_remainder p))"])
       auto
  obtain q f where tail: "\<And>F :: string \<Rightarrow> string \<Rightarrow> string \<Rightarrow> exn + split_result.
     (case (if CHR ''#'' \<in> set rest then split_first CHR ''#'' rest else (rest, [])) of
        (url5, fr) \<Rightarrow>
          (case (if CHR ''?'' \<in> set url5 then split_first CHR ''?'' url5 else (url5, [])) of
             (url6, qu) \<Rightarrow> F url6 qu fr))
     = F (url_path p) q f"
    using split_tail [where ca = "CHR ''#''" and v = rest and cb = "CHR ''?''"]
    unfolding path by blast
  define G where "G = (\<lambda>netloc' url4.
          (case (if CHR ''#'' \<in> set url4 then split_first CHR ''#'' url4 else (url4, [])) of
             (url5, fr) \<Rightarrow>
               (case (if CHR ''?'' \<in> set url5 then split_first CHR ''?'' url5 else (url5, [])) of
                  (url6, qu) \<Rightarrow>
                    (case checknetloc lib netloc' of
                       Some e \<Rightarrow> Inl e
                     | None \<Rightarrow> Inr \<lparr>scheme = ''gs'', netloc = netloc', path = url6,
                                     query = qu, fragment = fr\<rparr>))))"
  have G: "G n rest = (case checknetloc lib n of
                       Some e \<Rightarrow> Inl e
                     | None \<Rightarrow> Inr \<lparr>scheme = ''gs'', netloc = n, path = url_path p,
                                     query = q, fragment = f\<rparr>)" for n
    unfolding G_def
    by (rule tail [of "\<lambda>url6 qu fr. (case checknetloc lib n of
                       Some e \<Rightarrow> Inl e
                     | None \<Rightarrow> Inr \<lparr>scheme = ''gs'', netloc = n, path = url6,
                                     query = qu, fragment = fr\<rparr>)"])
  have split: "urlsplit lib p =
     (case split_authority lib (''//'' @ url_remainder p) of
        Inl e \<Rightarrow> Inl e
      | Inr (netloc', url4) \<Rightarrow> G netloc' url4)"
    unfolding urlsplit_def Let_def clean_gs [OF assms] split_scheme_gs prod.case G_def ..
  have auth: "split_authority lib (''//'' @ url_remainder p) =
     (if (CHR ''['' \<in> set a \<and> CHR '']'' \<notin> set a) \<or> (CHR '']'' \<in> set a \<and> CHR ''['' \<notin> set a)
      then Inl (ValueError ''Invalid IPv6 URL'')
      else if CHR ''['' \<in> set a \<and> CHR '']'' \<in> set a
      then (case check_bracketed_host lib (bracketed_host_of a) of
              Some e \<Rightarrow> Inl e | None \<Rightarrow> Inr (a, rest))
      else Inr (a, rest))"
    unfolding split_authority_slashes Let_def a_def url_authority_def rest_def ..
  have "urlsplit lib p =
     (case authority_error lib a of
        Some e \<Rightarrow> Inl e
      | None \<Rightarrow> Inr \<lparr>scheme = ''gs'', netloc = a, path = url_path p,
                      query = q, fragment = f\<rparr>)"
    unfolding split auth
    by (simp add: authority_error_def G split: option.splits)
  then show ?thesis unfolding a_def by blast
qed

lemma parse_gcs_path_gs:
  assumes "startswith p ''gs://''"
  shows "parse_gcs_path lib p =
     (case authority_error lib (url_authority p) of
        Some e \<Rightarrow> Inl e
      | None \<Rightarrow> Inr (url_authority p, lstrip (url_path p) ''/''))"
proof -
  from urlsplit_gs [OF assms, of lib] obtain q f where
    "urlsplit lib p =
     (case authority_error lib (url_authority p) of
        Some e \<Rightarrow> Inl e
      | None \<Rightarrow> Inr \<lparr>scheme = ''gs'', netloc = url_authority p, path = url_path p,
                      query = q, fragment = f\<rparr>)"
    by blast
  then show ?thesis
    using assms
    by (simp add: parse_gcs_path_def urlparse_def uses_params_def Let_def split: option.splits)
qed

text \<open>
  An input that begins with \<^verbatim>\<open>gs://\<close> and is rejected all the same: \<^verbatim>\<open>urlparse\<close> raises
  \<^verbatim>\<open>ValueError\<close> for a network location with a \<^verbatim>\<open>[\<close> and no \<^verbatim>\<open>]\<close>.
\<close>

theorem parse_gcs_path_unmatched_bracket:
  "startswith ''gs://[bucket/data'' ''gs://''
   \<and> parse_gcs_path sample_stdlib ''gs://[bucket/data'' = Inl (ValueError ''Invalid IPv6 URL'')"
  by code_simp

text \<open>
  C6, as the code has it. \<open>parse_gcs_path\<close> raises \<^verbatim>\<open>ValueError\<close> when the input does not begin
  with \<^verbatim>\<open>gs://\<close>. When it does, the call either raises what \<^verbatim>\<open>urlparse\<close> raises or returns
  the URL's network location and its path with the leading slashes stripped; it returns
  whenever the network location is ASCII and has no bracket, and it raises \<^verbatim>\<open>ValueError\<close>
  whenever the network location has one kind of bracket without the other. The function is a
  pure function of its argument (and of the library tables): it has no effect.
\<close>

theorem parse_gcs_path_contract:
  "(\<not> startswith p ''gs://'' \<longrightarrow>
      parse_gcs_path lib p = Inl (ValueError (''Invalid GCS path: '' @ p)))
   \<and> (startswith p ''gs://'' \<longrightarrow>
        (\<exists>e. parse_gcs_path lib p = Inl e)
        \<or> parse_gcs_path lib p = Inr (url_authority p, lstrip (url_path p) ''/''))
   \<and> (startswith p ''gs://'' \<and> isascii (url_authority p)
        \<and> CHR ''['' \<notin> set (url_authority p) \<and> CHR '']'' \<notin> set (url_authority p) \<longrightarrow>
        parse_gcs_path lib p = Inr (url_authority p, lstrip (url_path p) ''/''))
   \<and> (startswith p ''gs://''
        \<and> (CHR ''['' \<in> set (url_authority p)) \<noteq> (CHR '']'' \<in> set (url_authority p)) \<longrightarrow>
        parse_gcs_path lib p = Inl (ValueError ''Invalid IPv6 URL''))"
proof (intro conjI impI)
  assume "\<not> startswith p ''gs://''"
  then show "parse_gcs_path lib p = Inl (ValueError (''Invalid GCS path: '' @ p))"
    by (simp add: parse_gcs_path_def)
next
  assume "startswith p ''gs://''"
  then show "(\<exists>e. parse_gcs_path lib p = Inl e)
        \<or> parse_gcs_path lib p = Inr (url_authority p, lstrip (url_path p) ''/'')"
    by (simp add: parse_gcs_path_gs split: option.splits)
next
  assume "startswith p ''gs://'' \<and> isascii (url_authority p)
        \<and> CHR ''['' \<notin> set (url_authority p) \<and> CHR '']'' \<notin> set (url_authority p)"
  then show "parse_gcs_path lib p = Inr (url_authority p, lstrip (url_path p) ''/'')"
    by (simp add: parse_gcs_path_gs authority_error_def checknetloc_def)
next
  assume "startswith p ''gs://''
        \<and> (CHR ''['' \<in> set (url_authority p)) \<noteq> (CHR '']'' \<in> set (url_authority p))"
  then show "parse_gcs_path lib p = Inl (ValueError ''Invalid IPv6 URL'')"
    by (auto simp: parse_gcs_path_gs authority_error_def)
qed

theorem parse_gcs_path_contract_witness:
  "parse_gcs_path sample_stdlib ''s3://bucket/a'' = Inl (ValueError ''Invalid GCS path: s3://bucket/a'')
   \<and> parse_gcs_path sample_stdlib ''gs://bucket/scenario/x'' = Inr (''bucket'', ''scenario/x'')
   \<and> parse_gcs_path sample_stdlib ''gs://bucket]/x'' = Inl (ValueError ''Invalid IPv6 URL'')"
proof -
  have a: "\<not> startswith ''s3://bucket/a'' ''gs://''" by code_simp
  have b: "startswith ''gs://bucket/scenario/x'' ''gs://'' \<and> isascii (url_authority ''gs://bucket/scenario/x'')
        \<and> CHR ''['' \<notin> set (url_authority ''gs://bucket/scenario/x'')
        \<and> CHR '']'' \<notin> set (url_authority ''gs://bucket/scenario/x'')" by code_simp
  have b': "url_authority ''gs://bucket/scenario/x'' = ''bucket''"
    "lstrip (url_path ''gs://bucket/scenario/x'') ''/'' = ''scenario/x''" by code_simp+
  have c: "startswith ''gs://bucket]/x'' ''gs://''
        \<and> (CHR ''['' \<in> set (url_authority ''gs://bucket]/x'')) \<noteq> (CHR '']'' \<in> set (url_authority ''gs://bucket]/x''))"
    by code_simp
  have 1: "parse_gcs_path sample_stdlib ''s3://bucket/a''
           = Inl (ValueError (''Invalid GCS path: '' @ ''s3://bucket/a''))"
    using parse_gcs_path_contract [of "''s3://bucket/a''" sample_stdlib] a by blast
  have 2: "parse_gcs_path sample_stdlib ''gs://bucket/scenario/x''
           = Inr (url_authority ''gs://bucket/scenario/x'', lstrip (url_path ''gs://bucket/scenario/x'') ''/'')"
    using parse_gcs_path_contract [of "''gs://bucket/scenario/x''" sample_stdlib] b by blast
  have 3: "parse_gcs_path sample_stdlib ''gs://bucket]/x'' = Inl (ValueError ''Invalid IPv6 URL'')"
    using parse_gcs_path_contract [of "''gs://bucket]/x''" sample_stdlib] c by blast
  from 1 2 3 show ?thesis unfolding b' by simp
qed

text \<open>An accepted input whose container is empty.\<close>

theorem parse_gcs_path_empty_bucket:
  "parse_gcs_path sample_stdlib ''gs:///data/x'' = Inr ('''', ''data/x'')"
  by code_simp

lemma not_startswith_dropWhile: "\<not> startswith (lstrip s ''/'') ''/''"
proof
  assume "startswith (lstrip s ''/'') ''/''"
  then have "take 1 (dropWhile (\<lambda>c. c = CHR ''/'') s) = ''/''"
    by (simp add: startswith_def lstrip_def)
  then obtain ys where "dropWhile (\<lambda>c. c = CHR ''/'') s = CHR ''/'' # ys"
    by (cases "dropWhile (\<lambda>c. c = CHR ''/'') s") auto
  then show False using hd_dropWhile [of "\<lambda>c. c = CHR ''/''" s] by auto
qed

text \<open>
  C7, as the code has it. For every accepted input the returned prefix has no leading slash and
  the returned container has no \<^verbatim>\<open>/\<close>, \<^verbatim>\<open>?\<close> or \<^verbatim>\<open>#\<close>; the container is empty exactly when
  nothing, or one of these three characters, follows \<^verbatim>\<open>gs://\<close>.
\<close>

theorem parse_gcs_path_location:
  assumes "parse_gcs_path lib p = Inr (bucket_name, prefix)"
  shows "\<not> startswith prefix ''/''
     \<and> (\<forall>c\<in>set ''/?#''. c \<notin> set bucket_name)
     \<and> (bucket_name = [] \<longleftrightarrow> url_remainder p = [] \<or> hd (url_remainder p) \<in> set ''/?#'')"
proof -
  have gs: "startswith p ''gs://''"
    using assms by (auto simp: parse_gcs_path_def split: if_splits)
  from assms have b: "bucket_name = url_authority p" and x: "prefix = lstrip (url_path p) ''/''"
    by (auto simp: parse_gcs_path_gs [OF gs] split: option.splits)
  have 1: "\<not> startswith prefix ''/''" unfolding x by (rule not_startswith_dropWhile)
  have 2: "\<forall>c\<in>set ''/?#''. c \<notin> set bucket_name"
    unfolding b url_authority_def by (auto dest: set_takeWhileD)
  have 3: "bucket_name = [] \<longleftrightarrow> url_remainder p = [] \<or> hd (url_remainder p) \<in> set ''/?#''"
    unfolding b url_authority_def by (cases "url_remainder p") auto
  from 1 2 3 show ?thesis by blast
qed

theorem parse_gcs_path_location_witness:
  "parse_gcs_path sample_stdlib ''gs://bucket//scenario/x'' = Inr (''bucket'', ''scenario/x'')
   \<and> \<not> startswith ''scenario/x'' ''/''
   \<and> CHR ''/'' \<notin> set ''bucket'' \<and> CHR ''?'' \<notin> set ''bucket'' \<and> CHR ''#'' \<notin> set ''bucket''
   \<and> ''bucket'' \<noteq> ''''"
proof -
  have r: "parse_gcs_path sample_stdlib ''gs://bucket//scenario/x'' = Inr (''bucket'', ''scenario/x'')"
    by code_simp
  have u: "url_remainder ''gs://bucket//scenario/x'' = ''bucket//scenario/x''" by code_simp
  from parse_gcs_path_location [OF r] r show ?thesis unfolding u by simp
qed

section \<open>Properties of the transfer\<close>

declare copy_chunks.simps [simp del]

lemma chunk_size_nonzero [simp]: "0 < chunk_size" "chunk_size \<noteq> 0"
  by (simp_all add: chunk_size_def)

lemma copy_chunks_unfold:
  "copy_chunks h dest src s =
     (if content src = [] then (case fault src of None \<Rightarrow> (Inr (), s) | Some e \<Rightarrow> (Inl e, s))
      else (case file_write h dest (take chunk_size (content src)) s of
              (Inl e, s') \<Rightarrow> (Inl e, s')
            | (Inr _, s') \<Rightarrow> copy_chunks h dest (src\<lparr>content := drop chunk_size (content src)\<rparr>) s'))"
  by (subst copy_chunks.simps) (auto simp: remote_read_def split: option.splits)

lemma file_write_frame:
  "file_write h dest chunk s = (r, s') \<Longrightarrow>
     dirs s' = dirs s \<and> (\<forall>p. p \<noteq> dest \<longrightarrow> files s' p = files s p)"
  by (auto simp: file_write_def split: option.splits)

lemma file_write_ok:
  "file_write h dest chunk s = (Inr u, s') \<Longrightarrow> files s dest = Some old \<Longrightarrow>
     files s' dest = Some (old @ chunk)"
  by (auto simp: file_write_def split: option.splits)

lemma copy_chunks_frame:
  "copy_chunks h dest src s = (r, s') \<Longrightarrow>
     dirs s' = dirs s \<and> (\<forall>p. p \<noteq> dest \<longrightarrow> files s' p = files s p)"
proof (induction "length (content src)" arbitrary: src s rule: less_induct)
  case less
  show ?case
  proof (cases "content src = []")
    case True
    with less.prems show ?thesis
      by (subst (asm) copy_chunks_unfold) (auto split: option.splits)
  next
    case False
    obtain r1 s1 where w: "file_write h dest (take chunk_size (content src)) s = (r1, s1)"
      by (cases "file_write h dest (take chunk_size (content src)) s") auto
    note fr = file_write_frame [OF w]
    show ?thesis
    proof (cases r1)
      case (Inl e)
      with less.prems False w fr show ?thesis
        by (subst (asm) copy_chunks_unfold) auto
    next
      case (Inr u)
      let ?src = "src\<lparr>content := drop chunk_size (content src)\<rparr>"
      from less.prems False w Inr have rec: "copy_chunks h dest ?src s1 = (r, s')"
        by (subst (asm) copy_chunks_unfold) auto
      have "length (content ?src) < length (content src)"
        using False by (simp add: diff_less)
      from less.hyps [OF this rec] fr show ?thesis by simp
    qed
  qed
qed

lemma copy_chunks_ok:
  "copy_chunks h dest src s = (Inr u, s') \<Longrightarrow> files s dest = Some old \<Longrightarrow>
     fault src = None \<and> files s' dest = Some (old @ content src)"
proof (induction "length (content src)" arbitrary: src s old rule: less_induct)
  case less
  show ?case
  proof (cases "content src = []")
    case True
    with less.prems show ?thesis
      by (subst (asm) copy_chunks_unfold) (auto split: option.splits)
  next
    case False
    obtain r1 s1 where w: "file_write h dest (take chunk_size (content src)) s = (r1, s1)"
      by (cases "file_write h dest (take chunk_size (content src)) s") auto
    show ?thesis
    proof (cases r1)
      case (Inl e)
      with less.prems False w show ?thesis
        by (subst (asm) copy_chunks_unfold) auto
    next
      case (Inr v)
      let ?src = "src\<lparr>content := drop chunk_size (content src)\<rparr>"
      from less.prems(1) False w Inr have rec: "copy_chunks h dest ?src s1 = (Inr u, s')"
        by (subst (asm) copy_chunks_unfold) auto
      have f1: "files s1 dest = Some (old @ take chunk_size (content src))"
        using file_write_ok w Inr less.prems(2) by blast
      have "length (content ?src) < length (content src)"
        using False by (simp add: diff_less)
      from less.hyps [OF this rec f1] show ?thesis by simp
    qed
  qed
qed

lemma download_blob_frame:
  "download_blob h fs blob d s = (r, s') \<Longrightarrow>
     dirs s' = dirs s \<and> (\<forall>p. p \<noteq> d \<longrightarrow> files s' p = files s p)"
  by (auto simp: download_blob_def open_wb_def split: sum.splits option.splits dest: copy_chunks_frame)

lemma download_blob_ok:
  assumes "download_blob h fs blob d s = (Inr u, s')"
  shows "\<exists>src. open_rb fs blob = Inr src \<and> fault src = None \<and> files s' d = Some (content src)"
proof -
  from assms obtain src where src: "open_rb fs blob = Inr src"
    by (auto simp: download_blob_def split: sum.splits)
  with assms have "copy_chunks h d src (s\<lparr>files := (files s)(d \<mapsto> [])\<rparr>) = (Inr u, s')"
    by (auto simp: download_blob_def open_wb_def split: option.splits)
  from copy_chunks_ok [OF this, of "[]"] src show ?thesis by simp
qed

lemma download_group_step_frame:
  assumes "download_group_step h fs bucket_name destination_folder blob s = (r, s')"
  shows "dirs s \<subseteq> dirs s'
     \<and> (\<forall>p. destination_of h bucket_name destination_folder blob \<noteq> Inr p \<longrightarrow> files s' p = files s p)"
proof (cases "destination_of h bucket_name destination_folder blob")
  case (Inl e)
  with assms show ?thesis by (simp add: download_group_step_def)
next
  case (Inr d)
  show ?thesis
  proof (cases "makedirs_error h s (dirname d)")
    case (Some e)
    with assms Inr show ?thesis by (simp add: download_group_step_def makedirs_def)
  next
    case None
    with assms Inr
    have "download_blob h fs blob d (s\<lparr>dirs := insert (dirname d) (dirs s)\<rparr>) = (r, s')"
      by (simp add: download_group_step_def makedirs_def)
    from download_blob_frame [OF this] Inr show ?thesis by auto
  qed
qed

lemma download_group_step_ok:
  assumes "download_group_step h fs bucket_name destination_folder blob s = (Inr u, s')"
  shows "\<exists>d src. destination_of h bucket_name destination_folder blob = Inr d
           \<and> open_rb fs blob = Inr src \<and> fault src = None
           \<and> files s' d = Some (content src) \<and> dirname d \<in> dirs s'"
proof -
  from assms obtain d where d: "destination_of h bucket_name destination_folder blob = Inr d"
    by (auto simp: download_group_step_def split: sum.splits)
  from assms d have m: "makedirs_error h s (dirname d) = None"
    by (auto simp: download_group_step_def makedirs_def split: option.splits)
  with assms d
  have b: "download_blob h fs blob d (s\<lparr>dirs := insert (dirname d) (dirs s)\<rparr>) = (Inr u, s')"
    by (simp add: download_group_step_def makedirs_def)
  from download_blob_ok [OF b] download_blob_frame [OF b] d show ?thesis by auto
qed

lemma download_group_append:
  "download_group h fs bucket_name (xs @ ys) destination_folder s =
     (case download_group h fs bucket_name xs destination_folder s of
        (Inl e, s') \<Rightarrow> (Inl e, s')
      | (Inr _, s') \<Rightarrow> download_group h fs bucket_name ys destination_folder s')"
  by (induction xs arbitrary: s) (auto split: prod.splits sum.splits)

lemma download_group_frame:
  "download_group h fs bucket_name blobs destination_folder s = (r, s') \<Longrightarrow>
     dirs s \<subseteq> dirs s'
     \<and> (\<forall>p. (\<forall>b\<in>set blobs. destination_of h bucket_name destination_folder b \<noteq> Inr p)
              \<longrightarrow> files s' p = files s p)"
proof (induction blobs arbitrary: s)
  case Nil
  then show ?case by simp
next
  case (Cons blob blobs)
  obtain r1 s1 where st: "download_group_step h fs bucket_name destination_folder blob s = (r1, s1)"
    by (cases "download_group_step h fs bucket_name destination_folder blob s") auto
  note fr = download_group_step_frame [OF st]
  show ?case
  proof (cases r1)
    case (Inl e)
    with Cons.prems st fr show ?thesis by auto
  next
    case (Inr u)
    with Cons.prems st
    have "download_group h fs bucket_name blobs destination_folder s1 = (r, s')" by simp
    from Cons.IH [OF this] fr show ?thesis by auto
  qed
qed

text \<open>With no failing write, the copy loop writes the whole stream and ends the way the
  stream ends.\<close>

lemma copy_chunks_run:
  assumes "\<forall>s p c. write_error h s p c = None"
  shows "files s dest = Some old \<Longrightarrow>
     copy_chunks h dest src s =
       ((case fault src of None \<Rightarrow> Inr () | Some e \<Rightarrow> Inl e),
        s\<lparr>files := (files s)(dest \<mapsto> old @ content src)\<rparr>)"
proof (induction "length (content src)" arbitrary: src s old rule: less_induct)
  case less
  show ?case
  proof (cases "content src = []")
    case True
    have "(files s)(dest \<mapsto> old) = files s" using less.prems by (rule map_upd_triv)
    then have "s\<lparr>files := (files s)(dest \<mapsto> old)\<rparr> = s" by simp
    with True show ?thesis
      by (subst copy_chunks_unfold) (simp split: option.splits)
  next
    case False
    let ?chunk = "take chunk_size (content src)"
    let ?src = "src\<lparr>content := drop chunk_size (content src)\<rparr>"
    let ?s1 = "s\<lparr>files := (files s)(dest \<mapsto> old @ ?chunk)\<rparr>"
    have w: "file_write h dest ?chunk s = (Inr (), ?s1)"
      using assms less.prems by (simp add: file_write_def)
    have lt: "length (content ?src) < length (content src)"
      using False by (simp add: diff_less)
    have f1: "files ?s1 dest = Some (old @ ?chunk)" by simp
    have "copy_chunks h dest src s = copy_chunks h dest ?src ?s1"
      using False w by (subst copy_chunks_unfold) simp
    also have "\<dots> = ((case fault ?src of None \<Rightarrow> Inr () | Some e \<Rightarrow> Inl e),
        ?s1\<lparr>files := (files ?s1)(dest \<mapsto> (old @ ?chunk) @ content ?src)\<rparr>)"
      by (rule less.hyps [OF lt f1])
    also have "\<dots> = ((case fault src of None \<Rightarrow> Inr () | Some e \<Rightarrow> Inl e),
        s\<lparr>files := (files s)(dest \<mapsto> old @ content src)\<rparr>)"
      by simp
    finally show ?thesis .
  qed
qed

lemma download_blob_run:
  assumes "\<forall>s p c. write_error h s p c = None"
      and "open_rb fs blob = Inr src"
      and "open_error h s d = None"
  shows "download_blob h fs blob d s =
       ((case fault src of None \<Rightarrow> Inr () | Some e \<Rightarrow> Inl e),
        s\<lparr>files := (files s)(d \<mapsto> content src)\<rparr>)"
proof -
  let ?s0 = "s\<lparr>files := (files s)(d \<mapsto> [])\<rparr>"
  have "files ?s0 d = Some []" by simp
  from copy_chunks_run [OF assms(1) this, of src]
  show ?thesis using assms(2,3) by (simp add: download_blob_def open_wb_def)
qed

lemma download_group_step_run:
  assumes "\<forall>s p c. write_error h s p c = None"
      and "destination_of h bucket_name destination_folder blob = Inr d"
      and "makedirs_error h s (dirname d) = None"
      and "open_rb fs blob = Inr src"
      and "open_error h (s\<lparr>dirs := insert (dirname d) (dirs s)\<rparr>) d = None"
  shows "download_group_step h fs bucket_name destination_folder blob s =
       ((case fault src of None \<Rightarrow> Inr () | Some e \<Rightarrow> Inl e),
        s\<lparr>dirs := insert (dirname d) (dirs s), files := (files s)(d \<mapsto> content src)\<rparr>)"
  using download_blob_run [OF assms(1,4,5)] assms(2,3)
  by (simp add: download_group_step_def makedirs_def)

lemma relpath_defined: "blob \<noteq> [] \<Longrightarrow> \<exists>r. relpath d blob start = Inr r"
  by (simp add: relpath_def Let_def)

text \<open>With no failing local operation and every object readable to its end, the transfer of a
  group succeeds.\<close>

lemma download_group_succeeds:
  assumes "\<forall>s p c. write_error h s p c = None"
      and "\<forall>s p. open_error h s p = None"
      and "\<forall>s p. makedirs_error h s p = None"
      and "\<forall>b\<in>set blobs. b \<noteq> [] \<and> (\<exists>src. open_rb fs b = Inr src \<and> fault src = None)"
  shows "\<exists>s'. download_group h fs bucket_name blobs destination_folder s = (Inr (), s')"
  using assms(4)
proof (induction blobs arbitrary: s)
  case Nil
  show ?case by simp
next
  case (Cons blob blobs)
  from Cons.prems obtain src where ne: "blob \<noteq> []"
    and src: "open_rb fs blob = Inr src" "fault src = None" by auto
  from relpath_defined [OF ne] obtain r where
    "relpath (cwd h) blob (bucket_name @ ''/'') = Inr r" by blast
  then obtain d where
    d: "destination_of h bucket_name destination_folder blob = Inr d"
    by (simp add: destination_of_def)
  have "\<exists>s1. download_group_step h fs bucket_name destination_folder blob s = (Inr (), s1)"
    using download_group_step_run [OF assms(1) d _ src(1), of s] assms(2,3) src(2) by simp
  then obtain s1 where st: "download_group_step h fs bucket_name destination_folder blob s = (Inr (), s1)"
    by blast
  from Cons.prems have "\<forall>b\<in>set blobs. b \<noteq> [] \<and> (\<exists>src. open_rb fs b = Inr src \<and> fault src = None)"
    by simp
  from Cons.IH [OF this, of s1] st show ?case by simp
qed

lemma sample_host_simps [simp]:
  "write_error sample_host s p c = None"
  "open_error sample_host s p = None"
  "makedirs_error sample_host s ''/mnt/disk/data'' = None"
  by (simp_all add: sample_host_def)

lemma sample_destinations [simp]:
  "destination_of sample_host ''bkt'' ''/mnt/disk'' ''bkt/data/a'' = Inr ''/mnt/disk/data/a''"
  "destination_of sample_host ''bkt'' ''/mnt/disk'' ''bkt/data/b'' = Inr ''/mnt/disk/data/b''"
  "destination_of sample_host ''bkt'' ''/mnt/disk'' ''bkt/data/c'' = Inr ''/mnt/disk/data/c''"
  "destination_of sample_host ''bkt'' ''/mnt/disk'' ''bkt/data//a'' = Inr ''/mnt/disk/data/a''"
  "dirname ''/mnt/disk/data/a'' = ''/mnt/disk/data''"
  "dirname ''/mnt/disk/data/b'' = ''/mnt/disk/data''"
  "dirname ''/mnt/disk/data/c'' = ''/mnt/disk/data''"
  by code_simp+

lemma sample_objects [simp]:
  "open_rb sample_fs ''bkt/data/a'' = Inr \<lparr>content = [1, 2, 3], fault = None\<rparr>"
  "open_rb sample_fs ''bkt/data/b'' = Inr \<lparr>content = [4, 5], fault = None\<rparr>"
  "open_rb sample_fs ''bkt/data/c'' = Inr \<lparr>content = [6, 7], fault = Some (HttpError ''reset'')\<rparr>"
  "open_rb sample_fs ''bkt/data//a'' = Inr \<lparr>content = [9], fault = Some (HttpError ''reset'')\<rparr>"
  by (simp_all add: sample_fs_def)

lemma sample_step_a:
  "download_group_step sample_host sample_fs ''bkt'' ''/mnt/disk'' ''bkt/data/a'' s =
     (Inr (), s\<lparr>dirs := insert ''/mnt/disk/data'' (dirs s),
                files := (files s)(''/mnt/disk/data/a'' \<mapsto> [1, 2, 3])\<rparr>)"
  by (subst download_group_step_run [where d = "''/mnt/disk/data/a''"
        and src = "\<lparr>content = [1, 2, 3], fault = None\<rparr>"]) simp_all

lemma sample_step_b:
  "download_group_step sample_host sample_fs ''bkt'' ''/mnt/disk'' ''bkt/data/b'' s =
     (Inr (), s\<lparr>dirs := insert ''/mnt/disk/data'' (dirs s),
                files := (files s)(''/mnt/disk/data/b'' \<mapsto> [4, 5])\<rparr>)"
  by (subst download_group_step_run [where d = "''/mnt/disk/data/b''"
        and src = "\<lparr>content = [4, 5], fault = None\<rparr>"]) simp_all

lemma sample_step_c:
  "download_group_step sample_host sample_fs ''bkt'' ''/mnt/disk'' ''bkt/data/c'' s =
     (Inl (HttpError ''reset''), s\<lparr>dirs := insert ''/mnt/disk/data'' (dirs s),
                files := (files s)(''/mnt/disk/data/c'' \<mapsto> [6, 7])\<rparr>)"
  by (subst download_group_step_run [where d = "''/mnt/disk/data/c''"
        and src = "\<lparr>content = [6, 7], fault = Some (HttpError ''reset'')\<rparr>"]) simp_all

lemma sample_step_a2:
  "download_group_step sample_host sample_fs ''bkt'' ''/mnt/disk'' ''bkt/data//a'' s =
     (Inl (HttpError ''reset''), s\<lparr>dirs := insert ''/mnt/disk/data'' (dirs s),
                files := (files s)(''/mnt/disk/data/a'' \<mapsto> [9])\<rparr>)"
  by (subst download_group_step_run [where d = "''/mnt/disk/data/a''"
        and src = "\<lparr>content = [9], fault = Some (HttpError ''reset'')\<rparr>"]) simp_all

text \<open>
  A listing of \<^verbatim>\<open>gs://bkt/data\<close>: relative to the listing prefix the object \<^verbatim>\<open>bkt/data/a\<close>
  is \<^verbatim>\<open>a\<close>, and the destination would be \<^verbatim>\<open>/mnt/disk/a\<close>. The transfer writes nothing there: it
  writes \<^verbatim>\<open>/mnt/disk/data/a\<close>.
\<close>

theorem download_group_prefix_counterexample:
  "prefix_relative_destination sample_host ''bkt'' ''data'' ''/mnt/disk'' ''bkt/data/a''
     = Inr ''/mnt/disk/a''
   \<and> fst (download_group sample_host sample_fs ''bkt'' [''bkt/data/a''] ''/mnt/disk'' empty_disk)
     = Inr ()
   \<and> files (snd (download_group sample_host sample_fs ''bkt'' [''bkt/data/a''] ''/mnt/disk'' empty_disk))
       ''/mnt/disk/a'' = None
   \<and> files (snd (download_group sample_host sample_fs ''bkt'' [''bkt/data/a''] ''/mnt/disk'' empty_disk))
       ''/mnt/disk/data/a'' = Some [1, 2, 3]"
proof -
  have "prefix_relative_destination sample_host ''bkt'' ''data'' ''/mnt/disk'' ''bkt/data/a''
     = Inr ''/mnt/disk/a''" by code_simp
  then show ?thesis by (simp add: sample_step_a empty_disk_def)
qed

lemma download_group_written:
  assumes "download_group h fs bucket_name (pre @ blob # post) destination_folder s = (Inr (), s')"
      and "\<forall>b\<in>set post. destination_of h bucket_name destination_folder b
                          \<noteq> destination_of h bucket_name destination_folder blob"
  shows "\<exists>d src. destination_of h bucket_name destination_folder blob = Inr d
         \<and> open_rb fs blob = Inr src \<and> fault src = None
         \<and> files s' d = Some (content src) \<and> dirname d \<in> dirs s'"
proof -
  obtain r1 s1 where pre: "download_group h fs bucket_name pre destination_folder s = (r1, s1)"
    by (cases "download_group h fs bucket_name pre destination_folder s") auto
  obtain r2 s2 where st: "download_group_step h fs bucket_name destination_folder blob s1 = (r2, s2)"
    by (cases "download_group_step h fs bucket_name destination_folder blob s1") auto
  from assms(1) pre have r1: "r1 = Inr ()"
    by (cases r1) (simp_all add: download_group_append)
  from assms(1) pre st r1 have r2: "r2 = Inr ()"
    by (cases r2) (simp_all add: download_group_append)
  from assms(1) pre st r1 r2
  have post: "download_group h fs bucket_name post destination_folder s2 = (Inr (), s')"
    by (simp add: download_group_append)
  from download_group_step_ok [OF st [unfolded r2]] obtain d src where
    d: "destination_of h bucket_name destination_folder blob = Inr d"
    and src: "open_rb fs blob = Inr src" "fault src = None"
    and f: "files s2 d = Some (content src)" and dir: "dirname d \<in> dirs s2"
    by blast
  have "\<forall>b\<in>set post. destination_of h bucket_name destination_folder b \<noteq> Inr d"
    using assms(2) d by simp
  with download_group_frame [OF post] f dir
  have "files s' d = Some (content src)" "dirname d \<in> dirs s'" by auto
  with d src show ?thesis by blast
qed

subsection \<open>Relative paths under the bucket\<close>

lemma split_on_no_sep: "sep \<notin> set x \<Longrightarrow> split_on sep x = [x]"
  by (induction x) auto

lemma split_on_append: "sep \<notin> set x \<Longrightarrow> split_on sep (x @ sep # rest) = x # split_on sep rest"
  by (induction x) (auto split: list.splits)

lemma join_with_Cons: "xs \<noteq> [] \<Longrightarrow> join_with sep (x # xs) = x @ sep @ join_with sep xs"
  by (cases xs) auto

lemma split_on_join_with:
  "xs \<noteq> [] \<Longrightarrow> \<forall>x\<in>set xs. sep \<notin> set x \<Longrightarrow> split_on sep (join_with [sep] xs) = xs"
proof (induction xs)
  case Nil
  then show ?case by simp
next
  case (Cons x xs)
  show ?case
  proof (cases "xs = []")
    case True
    with Cons.prems show ?thesis by (simp add: split_on_no_sep)
  next
    case False
    with Cons show ?thesis by (simp add: join_with_Cons split_on_append)
  qed
qed

lemma normpath_steps:
  "\<forall>x\<in>set xs. x = [] \<or> plain_component x \<Longrightarrow>
     foldl (normpath_step k) acc xs = acc @ filter (\<lambda>x. x \<noteq> []) xs"
proof (induction xs arbitrary: acc)
  case Nil
  show ?case by simp
next
  case (Cons x xs)
  then show ?case by (auto simp: normpath_step_def plain_component_def)
qed

lemma join_with_append:
  "xs \<noteq> [] \<Longrightarrow> ys \<noteq> [] \<Longrightarrow> join_with sep (xs @ ys) = join_with sep xs @ sep @ join_with sep ys"
proof (induction xs)
  case Nil
  then show ?case by simp
next
  case (Cons x xs)
  show ?case
  proof (cases "xs = []")
    case True
    with Cons.prems show ?thesis by (simp add: join_with_Cons)
  next
    case False
    with Cons show ?thesis by (simp add: join_with_Cons)
  qed
qed

lemma join_with_last:
  "xs \<noteq> [] \<Longrightarrow> last xs \<noteq> [] \<Longrightarrow> join_with sep xs \<noteq> [] \<and> last (join_with sep xs) = last (last xs)"
proof (induction xs)
  case Nil
  then show ?case by simp
next
  case (Cons x xs)
  show ?case
  proof (cases "xs = []")
    case True
    with Cons.prems show ?thesis by simp
  next
    case False
    with Cons show ?thesis by (simp add: join_with_Cons)
  qed
qed

lemma commonprefix_append: "commonprefix xs (xs @ ys) = xs"
  by (induction xs) auto

lemma endswith_slash: "endswith p ''/'' \<longleftrightarrow> p \<noteq> [] \<and> last p = CHR ''/''"
proof (cases p rule: rev_cases)
  case Nil
  then show ?thesis by (simp add: endswith_def)
next
  case (snoc ys y)
  then show ?thesis by (auto simp: endswith_def)
qed

lemma startswith_slash: "startswith p ''/'' \<longleftrightarrow> p \<noteq> [] \<and> hd p = CHR ''/''"
  by (cases p) (auto simp: startswith_def)

lemma plain_last: "plain_component c \<Longrightarrow> c \<noteq> [] \<and> last c \<noteq> CHR ''/'' \<and> hd c \<noteq> CHR ''/''"
proof -
  assume p: "plain_component c"
  then have ne: "c \<noteq> []" and no: "CHR ''/'' \<notin> set c" by (simp_all add: plain_component_def)
  from ne have "last c \<in> set c" "hd c \<in> set c" by simp_all
  with ne no show ?thesis by metis
qed

lemma join_steps_plain:
  assumes "\<forall>k\<in>set ks. plain_component k" and "acc \<noteq> []" and "last acc \<noteq> CHR ''/''"
  shows "foldl join_step acc ks = (if ks = [] then acc else acc @ ''/'' @ join_with ''/'' ks)"
  using assms
proof (induction ks arbitrary: acc)
  case Nil
  show ?case by simp
next
  case (Cons k ks)
  have k: "k \<noteq> []" "last k \<noteq> CHR ''/''" "hd k \<noteq> CHR ''/''"
    using Cons.prems(1) plain_last [of k] by auto
  have st: "join_step acc k = acc @ ''/'' @ k"
    using k Cons.prems(2,3) by (simp add: join_step_def startswith_slash endswith_slash)
  have "foldl join_step (acc @ ''/'' @ k) ks
        = (if ks = [] then acc @ ''/'' @ k else (acc @ ''/'' @ k) @ ''/'' @ join_with ''/'' ks)"
    by (rule Cons.IH) (use Cons.prems k in auto)
  then show ?case
    by (cases ks) (simp_all add: st)
qed

text \<open>An absolute path of plain components and empty components (doubled or trailing slashes),
  the first one plain, normalises to its plain components.\<close>

lemma plain_no_sep: "plain_component c \<Longrightarrow> CHR ''/'' \<notin> set c"
  by (simp add: plain_component_def)

lemma plain_nonempty: "plain_component c \<Longrightarrow> c \<noteq> []"
  by (simp add: plain_component_def)

lemma filter_plain: "\<forall>y\<in>set ys. plain_component y \<Longrightarrow> filter (\<lambda>x. x \<noteq> []) ys = ys"
  by (rule filter_True) (simp add: plain_nonempty)

lemma normpath_absolute:
  assumes "xs \<noteq> []" and "plain_component (hd xs)" and "\<forall>x\<in>set xs. x = [] \<or> plain_component x"
  shows "normpath (''/'' @ join_with ''/'' xs) = ''/'' @ join_with ''/'' (filter (\<lambda>x. x \<noteq> []) xs)"
proof -
  define p where "p = ''/'' @ join_with ''/'' xs"
  obtain x rest where xs: "xs = x # rest" using assms(1) by (cases xs) auto
  have x: "plain_component x" using assms(2) xs by simp
  then obtain c cs where xc: "x = c # cs" "c \<noteq> CHR ''/''"
    using plain_last [of x] by (cases x) auto
  obtain t where j: "join_with ''/'' xs = c # t"
    using xs xc by (cases rest) simp_all
  have p2: "p = CHR ''/'' # c # t" by (simp add: p_def j)
  have s0: "p \<noteq> []" by (simp add: p2)
  have s1: "startswith p ''/''" by (simp add: p2 startswith_def)
  have s2: "\<not> startswith p ''//''" using xc(2) by (simp add: p2 startswith_def)
  have nosep: "\<forall>y\<in>set xs. CHR ''/'' \<notin> set y"
    using assms(3) plain_no_sep by fastforce
  have "split_on CHR ''/'' p = [] # split_on CHR ''/'' (join_with ''/'' xs)"
    by (simp add: p_def)
  also have "split_on CHR ''/'' (join_with ''/'' xs) = xs"
    using split_on_join_with [OF assms(1) nosep] by simp
  finally have sp: "split_on CHR ''/'' p = [] # xs" .
  have "foldl (normpath_step 1) [] ([] # xs) = [] @ filter (\<lambda>x. x \<noteq> []) ([] # xs)"
    by (rule normpath_steps) (use assms(3) in simp)
  then have fo: "foldl (normpath_step (Suc 0)) [] ([] # xs) = filter (\<lambda>x. x \<noteq> []) xs" by simp
  have "normpath p = replicate 1 CHR ''/'' @ join_with ''/'' (filter (\<lambda>x. x \<noteq> []) xs)"
    unfolding normpath_def Let_def sp using s0 s1 s2 by (simp add: fo del: foldl.simps)
  then show ?thesis by (simp add: p_def)
qed

lemma absolute_components:
  assumes "ys \<noteq> []" and "\<forall>y\<in>set ys. plain_component y"
  shows "filter (\<lambda>x. x \<noteq> []) (split_on CHR ''/'' (''/'' @ join_with ''/'' ys)) = ys"
proof -
  have nosep: "\<forall>y\<in>set ys. CHR ''/'' \<notin> set y"
    using assms(2) plain_no_sep by blast
  have "split_on CHR ''/'' (''/'' @ join_with ''/'' ys) = [] # ys"
    using split_on_join_with [OF assms(1) nosep] by simp
  moreover have "filter (\<lambda>x. x \<noteq> []) ys = ys"
    using assms(2) by (rule filter_plain)
  ultimately show ?thesis by simp
qed

text \<open>
  For a working directory \<^verbatim>\<open>/c1/.../cn\<close>, a bucket name and an object key \<^verbatim>\<open>k1/.../km\<close>, all of
  plain components (non-empty, without \<^verbatim>\<open>/\<close>, other than \<^verbatim>\<open>.\<close> and \<^verbatim>\<open>..\<close>), the path of
  \<^verbatim>\<open>bucket/key\<close> relative to \<^verbatim>\<open>bucket/\<close> is the key.
\<close>

lemma relpath_under_bucket:
  assumes "cs \<noteq> []" and "\<forall>c\<in>set cs. plain_component c"
      and "plain_component bucket_name"
      and "ks \<noteq> []" and "\<forall>k\<in>set ks. plain_component k"
  shows "relpath (''/'' @ join_with ''/'' cs) (bucket_name @ ''/'' @ join_with ''/'' ks) (bucket_name @ ''/'')
         = Inr (join_with ''/'' ks)"
proof -
  let ?cwd = "''/'' @ join_with ''/'' cs"
  let ?blob = "bucket_name @ ''/'' @ join_with ''/'' ks"
  let ?start = "bucket_name @ ''/''"
  have b: "bucket_name \<noteq> []" "hd bucket_name \<noteq> CHR ''/''"
    using plain_last [OF assms(3)] by simp_all
  have k: "plain_component (hd ks)" using assms(4,5) by (cases ks) auto
  have cl: "plain_component (last cs)" "plain_component (hd cs)" using assms(1,2) by auto
  have cwd_last: "?cwd \<noteq> []" "last ?cwd \<noteq> CHR ''/''"
    using join_with_last [OF assms(1), of "''/''"] plain_last [OF cl(1)] by auto
  have nb: "\<not> isabs ?blob" "\<not> isabs ?start"
    using b by (simp_all add: isabs_def startswith_slash)
  have blob_eq: "?blob = join_with ''/'' (bucket_name # ks)"
    using assms(4) by (simp add: join_with_Cons)
  have jb: "join ?cwd [?blob] = ''/'' @ join_with ''/'' (cs @ bucket_name # ks)"
  proof -
    have "join_step ?cwd ?blob = ?cwd @ ''/'' @ ?blob"
      using b cwd_last by (simp add: join_step_def startswith_slash endswith_slash)
    then show ?thesis
      unfolding blob_eq using assms(1) by (simp add: join_def join_with_append)
  qed
  have js: "join ?cwd [?start] = ''/'' @ join_with ''/'' (cs @ [bucket_name, []])"
  proof -
    have "join_step ?cwd ?start = ?cwd @ ''/'' @ ?start"
      using b cwd_last by (simp add: join_step_def startswith_slash endswith_slash)
    then show ?thesis
      using assms(1) by (simp add: join_def join_with_append)
  qed
  have hd1: "plain_component (hd (cs @ bucket_name # ks))" "plain_component (hd (cs @ [bucket_name, []]))"
    using cl(2) assms(1) by simp_all
  have ab: "abspath ?cwd ?blob = ''/'' @ join_with ''/'' (cs @ bucket_name # ks)"
  proof -
    have "normpath (''/'' @ join_with ''/'' (cs @ bucket_name # ks))
          = ''/'' @ join_with ''/'' (filter (\<lambda>x. x \<noteq> []) (cs @ bucket_name # ks))"
      by (rule normpath_absolute) (use hd1 assms in auto)
    moreover have "filter (\<lambda>x. x \<noteq> []) (cs @ bucket_name # ks) = cs @ bucket_name # ks"
      by (rule filter_plain) (use assms in auto)
    ultimately show ?thesis using nb jb by (simp add: abspath_def)
  qed
  have as: "abspath ?cwd ?start = ''/'' @ join_with ''/'' (cs @ [bucket_name])"
  proof -
    have "normpath (''/'' @ join_with ''/'' (cs @ [bucket_name, []]))
          = ''/'' @ join_with ''/'' (filter (\<lambda>x. x \<noteq> []) (cs @ [bucket_name, []]))"
      by (rule normpath_absolute) (use hd1 assms in auto)
    moreover have "filter (\<lambda>x. x \<noteq> []) (cs @ [bucket_name, []]) = cs @ [bucket_name]"
      using filter_plain [OF assms(2)] plain_nonempty [OF assms(3)] by simp
    ultimately show ?thesis using nb js by (simp add: abspath_def)
  qed
  have pl: "filter (\<lambda>x. x \<noteq> []) (split_on CHR ''/'' (abspath ?cwd ?blob)) = cs @ bucket_name # ks"
    unfolding ab by (rule absolute_components) (use assms in auto)
  have sl: "filter (\<lambda>x. x \<noteq> []) (split_on CHR ''/'' (abspath ?cwd ?start)) = cs @ [bucket_name]"
    unfolding as by (rule absolute_components) (use assms in auto)
  have cp: "commonprefix (cs @ [bucket_name]) (cs @ bucket_name # ks) = cs @ [bucket_name]"
    using commonprefix_append [of "cs @ [bucket_name]" ks] by simp
  have jk: "join (hd ks) (tl ks) = join_with ''/'' ks"
  proof -
    have "foldl join_step (hd ks) (tl ks)
          = (if tl ks = [] then hd ks else hd ks @ ''/'' @ join_with ''/'' (tl ks))"
      by (rule join_steps_plain) (use assms(4,5) plain_last [OF k] in \<open>auto dest: list.set_sel(2)\<close>)
    then show ?thesis
      using assms(4) by (cases ks) (auto simp: join_def join_with_Cons)
  qed
  have "?blob \<noteq> []" using b by simp
  then show ?thesis
    unfolding relpath_def Let_def pl sl cp using assms(4) jk by simp
qed

text \<open>The same holds in the root directory, where joining adds no separator.\<close>

lemma relpath_under_bucket_root:
  assumes "plain_component bucket_name"
      and "ks \<noteq> []" and "\<forall>k\<in>set ks. plain_component k"
  shows "relpath ''/'' (bucket_name @ ''/'' @ join_with ''/'' ks) (bucket_name @ ''/'')
         = Inr (join_with ''/'' ks)"
proof -
  let ?cwd = "''/''"
  let ?blob = "bucket_name @ ''/'' @ join_with ''/'' ks"
  let ?start = "bucket_name @ ''/''"
  have b: "bucket_name \<noteq> []" "hd bucket_name \<noteq> CHR ''/''"
    using plain_last [OF assms(1)] by simp_all
  have k: "plain_component (hd ks)" using assms(2,3) by (cases ks) auto
  have nb: "\<not> isabs ?blob" "\<not> isabs ?start"
    using b by (simp_all add: isabs_def startswith_slash)
  have blob_eq: "?blob = join_with ''/'' (bucket_name # ks)"
    using assms(2) by (simp add: join_with_Cons)
  have jb: "join ?cwd [?blob] = ''/'' @ join_with ''/'' (bucket_name # ks)"
  proof -
    have "join_step ?cwd ?blob = ?cwd @ ?blob"
      using b by (simp add: join_step_def startswith_slash endswith_slash)
    then show ?thesis
      unfolding blob_eq by (simp add: join_def)
  qed
  have js: "join ?cwd [?start] = ''/'' @ join_with ''/'' [bucket_name, []]"
  proof -
    have "join_step ?cwd ?start = ?cwd @ ?start"
      using b by (simp add: join_step_def startswith_slash endswith_slash)
    then show ?thesis
      by (simp add: join_def)
  qed
  have ab: "abspath ?cwd ?blob = ''/'' @ join_with ''/'' (bucket_name # ks)"
  proof -
    have "normpath (''/'' @ join_with ''/'' (bucket_name # ks))
          = ''/'' @ join_with ''/'' (filter (\<lambda>x. x \<noteq> []) (bucket_name # ks))"
      by (rule normpath_absolute) (use assms in auto)
    moreover have "filter (\<lambda>x. x \<noteq> []) (bucket_name # ks) = bucket_name # ks"
      by (rule filter_plain) (use assms in auto)
    ultimately show ?thesis using nb jb by (simp add: abspath_def)
  qed
  have as: "abspath ?cwd ?start = ''/'' @ join_with ''/'' [bucket_name]"
  proof -
    have "normpath (''/'' @ join_with ''/'' [bucket_name, []])
          = ''/'' @ join_with ''/'' (filter (\<lambda>x. x \<noteq> []) [bucket_name, []])"
      by (rule normpath_absolute) (use assms in auto)
    moreover have "filter (\<lambda>x. x \<noteq> []) [bucket_name, []] = [bucket_name]"
      using plain_nonempty [OF assms(1)] by simp
    ultimately show ?thesis using nb js by (simp add: abspath_def)
  qed
  have pl: "filter (\<lambda>x. x \<noteq> []) (split_on CHR ''/'' (abspath ?cwd ?blob)) = bucket_name # ks"
    unfolding ab by (rule absolute_components) (use assms in auto)
  have sl: "filter (\<lambda>x. x \<noteq> []) (split_on CHR ''/'' (abspath ?cwd ?start)) = [bucket_name]"
    unfolding as by (rule absolute_components) (use assms in auto)
  have cp: "commonprefix [bucket_name] (bucket_name # ks) = [bucket_name]"
    using commonprefix_append [of "[bucket_name]" ks] by simp
  have jk: "join (hd ks) (tl ks) = join_with ''/'' ks"
  proof -
    have "foldl join_step (hd ks) (tl ks)
          = (if tl ks = [] then hd ks else hd ks @ ''/'' @ join_with ''/'' (tl ks))"
      by (rule join_steps_plain) (use assms(2,3) plain_last [OF k] in \<open>auto dest: list.set_sel(2)\<close>)
    then show ?thesis
      using assms(2) by (cases ks) (auto simp: join_def join_with_Cons)
  qed
  have "?blob \<noteq> []" using b by simp
  then show ?thesis
    unfolding relpath_def Let_def pl sl cp using assms(2) jk by simp
qed

text \<open>
  C4, as the code has it. When the transfer of a group succeeds, every object of the group has
  been written to the local path that joins the destination root with the object's path
  relative to the bucket (\<^verbatim>\<open>relpath(blob, start=bucket_name + '/')\<close>), and the directory of that
  path has been created. For an object \<^verbatim>\<open>bucket/key\<close> that relative path is the key, so the
  listing prefix stays in the local path. The file holds the object's bytes at the end when no
  later object of the group has the same destination.
\<close>

theorem download_group_mirrors:
  assumes "download_group h fs bucket_name (pre @ blob # post) destination_folder s = (Inr (), s')"
      and "\<forall>b\<in>set post. destination_of h bucket_name destination_folder b
                          \<noteq> destination_of h bucket_name destination_folder blob"
  shows "\<exists>relative_path src.
           relpath (cwd h) blob (bucket_name @ ''/'') = Inr relative_path
         \<and> open_rb fs blob = Inr src
         \<and> files s' (join destination_folder [relative_path]) = Some (content src)
         \<and> dirname (join destination_folder [relative_path]) \<in> dirs s'
         \<and> (\<forall>cs ks. cwd h = ''/'' @ join_with ''/'' cs \<and> (\<forall>c\<in>set cs. plain_component c)
                \<and> plain_component bucket_name
                \<and> blob = bucket_name @ ''/'' @ join_with ''/'' ks \<and> ks \<noteq> []
                \<and> (\<forall>k\<in>set ks. plain_component k)
              \<longrightarrow> relative_path = join_with ''/'' ks)"
proof -
  from download_group_written [OF assms] obtain d src where
    d: "destination_of h bucket_name destination_folder blob = Inr d"
    and src: "open_rb fs blob = Inr src"
    and f: "files s' d = Some (content src)" and dir: "dirname d \<in> dirs s'"
    by blast
  from d obtain relative_path where
    rel: "relpath (cwd h) blob (bucket_name @ ''/'') = Inr relative_path"
    and dj: "d = join destination_folder [relative_path]"
    by (auto simp: destination_of_def split: sum.splits)
  have "relative_path = join_with ''/'' ks"
    if "cwd h = ''/'' @ join_with ''/'' cs \<and> (\<forall>c\<in>set cs. plain_component c)
                \<and> plain_component bucket_name
                \<and> blob = bucket_name @ ''/'' @ join_with ''/'' ks \<and> ks \<noteq> []
                \<and> (\<forall>k\<in>set ks. plain_component k)" for cs ks
  proof -
    have "relpath (cwd h) blob (bucket_name @ ''/'') = Inr (join_with ''/'' ks)"
    proof (cases "cs = []")
      case True
      with that show ?thesis
        using relpath_under_bucket_root [of bucket_name ks] by simp
    next
      case False
      with that show ?thesis
        using relpath_under_bucket [of cs bucket_name ks] by simp
    qed
    with rel show ?thesis by simp
  qed
  with rel src f dir dj show ?thesis by blast
qed

theorem download_group_mirrors_witness:
  "download_group sample_host sample_fs ''bkt'' ([''bkt/data/a''] @ ''bkt/data/b'' # []) ''/mnt/disk'' empty_disk
     = (Inr (), \<lparr>files = [''/mnt/disk/data/a'' \<mapsto> [1, 2, 3], ''/mnt/disk/data/b'' \<mapsto> [4, 5]],
                 dirs = {''/mnt/disk/data''}\<rparr>)
   \<and> relpath (cwd sample_host) ''bkt/data/b'' (''bkt'' @ ''/'') = Inr ''data/b''
   \<and> join ''/mnt/disk'' [''data/b''] = ''/mnt/disk/data/b''
   \<and> (\<exists>src. open_rb sample_fs ''bkt/data/b'' = Inr src
         \<and> files \<lparr>files = [''/mnt/disk/data/a'' \<mapsto> [1, 2, 3], ''/mnt/disk/data/b'' \<mapsto> [4, 5]],
                   dirs = {''/mnt/disk/data''}\<rparr> ''/mnt/disk/data/b'' = Some (content src)
         \<and> dirname ''/mnt/disk/data/b''
             \<in> dirs \<lparr>files = [''/mnt/disk/data/a'' \<mapsto> [1, 2, 3], ''/mnt/disk/data/b'' \<mapsto> [4, 5]],
                     dirs = {''/mnt/disk/data''}\<rparr>)"
proof -
  let ?s' = "\<lparr>files = [''/mnt/disk/data/a'' \<mapsto> [1, 2, 3], ''/mnt/disk/data/b'' \<mapsto> [4, 5]],
                 dirs = {''/mnt/disk/data''}\<rparr>"
  have run: "download_group sample_host sample_fs ''bkt'' ([''bkt/data/a''] @ ''bkt/data/b'' # []) ''/mnt/disk'' empty_disk
     = (Inr (), ?s')"
    by (simp add: sample_step_a sample_step_b empty_disk_def)
  have shape: "cwd sample_host = ''/'' @ join_with ''/'' [''home'', ''user'']
      \<and> (\<forall>c\<in>set [''home'', ''user'']. plain_component c) \<and> plain_component ''bkt''
      \<and> ''bkt/data/b'' = ''bkt'' @ ''/'' @ join_with ''/'' [''data'', ''b''] \<and> [''data'', ''b''] \<noteq> []
      \<and> (\<forall>k\<in>set [''data'', ''b'']. plain_component k)"
    by (simp add: sample_host_def plain_component_def)
  from download_group_mirrors [OF run] obtain relative_path src where
    rel: "relpath (cwd sample_host) ''bkt/data/b'' (''bkt'' @ ''/'') = Inr relative_path"
    and src: "open_rb sample_fs ''bkt/data/b'' = Inr src"
    and f: "files ?s' (join ''/mnt/disk'' [relative_path]) = Some (content src)"
    and dir: "dirname (join ''/mnt/disk'' [relative_path]) \<in> dirs ?s'"
    and key: "\<forall>cs ks. cwd sample_host = ''/'' @ join_with ''/'' cs \<and> (\<forall>c\<in>set cs. plain_component c)
                \<and> plain_component ''bkt''
                \<and> ''bkt/data/b'' = ''bkt'' @ ''/'' @ join_with ''/'' ks \<and> ks \<noteq> []
                \<and> (\<forall>k\<in>set ks. plain_component k)
              \<longrightarrow> relative_path = join_with ''/'' ks"
    by auto
  from key shape have "relative_path = join_with ''/'' [''data'', ''b'']" by blast
  then have r: "relative_path = ''data/b''" by simp
  have j: "join ''/mnt/disk'' [''data/b''] = ''/mnt/disk/data/b''" by code_simp
  from run rel src f dir show ?thesis unfolding r j by blast
qed

text \<open>
  Two objects with one destination: \<^verbatim>\<open>data/a\<close> is transferred in full, then the transfer of
  \<^verbatim>\<open>data//a\<close> truncates the same local file and fails after one byte. The first object is no
  longer fully written when the error is raised.
\<close>

theorem download_group_overwrite_counterexample:
  "fst (download_group sample_host sample_fs ''bkt'' [''bkt/data/a''] ''/mnt/disk'' empty_disk) = Inr ()
   \<and> files (snd (download_group sample_host sample_fs ''bkt'' [''bkt/data/a''] ''/mnt/disk'' empty_disk))
        ''/mnt/disk/data/a'' = Some [1, 2, 3]
   \<and> fst (download_group sample_host sample_fs ''bkt'' [''bkt/data/a'', ''bkt/data//a''] ''/mnt/disk'' empty_disk)
        = Inl (HttpError ''reset'')
   \<and> files (snd (download_group sample_host sample_fs ''bkt'' [''bkt/data/a'', ''bkt/data//a''] ''/mnt/disk'' empty_disk))
        ''/mnt/disk/data/a'' = Some [9]"
  by (simp add: sample_step_a sample_step_a2 empty_disk_def)

text \<open>
  C8, as the code has it. If the objects before some object of the group are transferred and the
  transfer of that object raises \<open>e\<close>, then \<open>download_group\<close> raises \<open>e\<close> in the state the
  failed transfer left, whatever objects follow: none of them is attempted. The failed transfer
  changes no file but the one at its own destination, and every earlier object whose
  destination is not the destination of a later object up to the failing one is still fully
  written.
\<close>

theorem download_group_aborts:
  assumes "download_group h fs bucket_name pre destination_folder s = (Inr (), s1)"
      and "download_group_step h fs bucket_name destination_folder blob s1 = (Inl e, s2)"
  shows "download_group h fs bucket_name (pre @ blob # post) destination_folder s = (Inl e, s2)
     \<and> (\<forall>p. destination_of h bucket_name destination_folder blob \<noteq> Inr p
              \<longrightarrow> files s2 p = files s1 p)
     \<and> (\<forall>pre1 b pre2.
           pre = pre1 @ b # pre2
           \<and> (\<forall>x\<in>set (pre2 @ [blob]). destination_of h bucket_name destination_folder x
                                          \<noteq> destination_of h bucket_name destination_folder b)
           \<longrightarrow> (\<exists>d src. destination_of h bucket_name destination_folder b = Inr d
                         \<and> open_rb fs b = Inr src \<and> files s2 d = Some (content src)))"
proof (intro conjI allI impI)
  show "download_group h fs bucket_name (pre @ blob # post) destination_folder s = (Inl e, s2)"
    using assms by (simp add: download_group_append)
next
  fix p
  assume "destination_of h bucket_name destination_folder blob \<noteq> Inr p"
  with download_group_step_frame [OF assms(2)] show "files s2 p = files s1 p" by blast
next
  fix pre1 b pre2
  assume a: "pre = pre1 @ b # pre2
           \<and> (\<forall>x\<in>set (pre2 @ [blob]). destination_of h bucket_name destination_folder x
                                          \<noteq> destination_of h bucket_name destination_folder b)"
  then have run: "download_group h fs bucket_name (pre1 @ b # pre2) destination_folder s = (Inr (), s1)"
    using assms(1) by simp
  from a have "\<forall>x\<in>set pre2. destination_of h bucket_name destination_folder x
                                          \<noteq> destination_of h bucket_name destination_folder b"
    by simp
  from download_group_written [OF run this] obtain d src where
    d: "destination_of h bucket_name destination_folder b = Inr d"
    and src: "open_rb fs b = Inr src"
    and f: "files s1 d = Some (content src)"
    by blast
  from a d have "destination_of h bucket_name destination_folder blob \<noteq> Inr d" by simp
  with download_group_step_frame [OF assms(2)] f have "files s2 d = Some (content src)" by simp
  with d src
  show "\<exists>d src. destination_of h bucket_name destination_folder b = Inr d
                         \<and> open_rb fs b = Inr src \<and> files s2 d = Some (content src)"
    by blast
qed

theorem download_group_aborts_witness:
  "download_group sample_host sample_fs ''bkt''
      ([''bkt/data/a''] @ ''bkt/data/c'' # [''bkt/data/b'']) ''/mnt/disk'' empty_disk
     = (Inl (HttpError ''reset''),
        \<lparr>files = [''/mnt/disk/data/a'' \<mapsto> [1, 2, 3], ''/mnt/disk/data/c'' \<mapsto> [6, 7]],
         dirs = {''/mnt/disk/data''}\<rparr>)
   \<and> (\<exists>d src. destination_of sample_host ''bkt'' ''/mnt/disk'' ''bkt/data/a'' = Inr d
          \<and> open_rb sample_fs ''bkt/data/a'' = Inr src
          \<and> files \<lparr>files = [''/mnt/disk/data/a'' \<mapsto> [1, 2, 3], ''/mnt/disk/data/c'' \<mapsto> [6, 7]],
                    dirs = {''/mnt/disk/data''}\<rparr> d = Some (content src))
   \<and> files \<lparr>files = [''/mnt/disk/data/a'' \<mapsto> [1, 2, 3], ''/mnt/disk/data/c'' \<mapsto> [6, 7]],
              dirs = {''/mnt/disk/data''}\<rparr> ''/mnt/disk/data/b'' = None"
proof -
  let ?s1 = "\<lparr>files = [''/mnt/disk/data/a'' \<mapsto> [1, 2, 3]], dirs = {''/mnt/disk/data''}\<rparr>"
  let ?s2 = "\<lparr>files = [''/mnt/disk/data/a'' \<mapsto> [1, 2, 3], ''/mnt/disk/data/c'' \<mapsto> [6, 7]],
              dirs = {''/mnt/disk/data''}\<rparr>"
  have pre: "download_group sample_host sample_fs ''bkt'' [''bkt/data/a''] ''/mnt/disk'' empty_disk
             = (Inr (), ?s1)"
    by (simp add: sample_step_a empty_disk_def)
  have st: "download_group_step sample_host sample_fs ''bkt'' ''/mnt/disk'' ''bkt/data/c'' ?s1
             = (Inl (HttpError ''reset''), ?s2)"
    by (simp add: sample_step_c)
  note t = download_group_aborts [OF pre st, of "[''bkt/data/b'']"]
  from t have 1: "download_group sample_host sample_fs ''bkt''
      ([''bkt/data/a''] @ ''bkt/data/c'' # [''bkt/data/b'']) ''/mnt/disk'' empty_disk
     = (Inl (HttpError ''reset''), ?s2)" by blast
  from t have "[''bkt/data/a''] = [] @ ''bkt/data/a'' # []
           \<and> (\<forall>x\<in>set ([] @ [''bkt/data/c'']). destination_of sample_host ''bkt'' ''/mnt/disk'' x
                                          \<noteq> destination_of sample_host ''bkt'' ''/mnt/disk'' ''bkt/data/a'')
           \<longrightarrow> (\<exists>d src. destination_of sample_host ''bkt'' ''/mnt/disk'' ''bkt/data/a'' = Inr d
                         \<and> open_rb sample_fs ''bkt/data/a'' = Inr src \<and> files ?s2 d = Some (content src))"
    by blast
  then have 2: "\<exists>d src. destination_of sample_host ''bkt'' ''/mnt/disk'' ''bkt/data/a'' = Inr d
                         \<and> open_rb sample_fs ''bkt/data/a'' = Inr src \<and> files ?s2 d = Some (content src)"
    by simp
  have 3: "files ?s2 ''/mnt/disk/data/b'' = None" by simp
  from 1 2 3 show ?thesis by blast
qed

section \<open>Properties of the worker pool\<close>

text \<open>The tasks run one after the other, each on the disk left by the one before, and every
  one of them runs, also after a failure.\<close>

lemma run_tasks_trace:
  "\<forall>i\<in>set order. i < length grouped_blobs \<Longrightarrow>
   run_tasks h fs bucket_name destination_folder grouped_blobs order s
     = (map (\<lambda>k. (order ! k,
                    fst (download_group h fs bucket_name (grouped_blobs ! (order ! k)) destination_folder
                           (foldl (\<lambda>t i. snd (download_group h fs bucket_name (grouped_blobs ! i)
                                                  destination_folder t))
                                  s (take k order)))))
            [0..<length order],
        foldl (\<lambda>t i. snd (download_group h fs bucket_name (grouped_blobs ! i) destination_folder t))
              s order)"
proof (induction order arbitrary: s)
  case Nil
  then show ?case by simp
next
  case (Cons j order)
  from Cons.prems have j: "j < length grouped_blobs" and rest: "\<forall>i\<in>set order. i < length grouped_blobs"
    by simp_all
  show ?case
    unfolding length_Cons map_upt_Suc
    using j by (simp add: Cons.IH [OF rest] split: prod.splits)
qed

lemma collect_results_errors:
  "collect_results futures = map ErrorDownloading (concat (map (\<lambda>(i, r). case r of Inl e \<Rightarrow> [e] | Inr u \<Rightarrow> []) futures))"
  by (induction futures rule: collect_results.induct) auto

text \<open>
  C5. With a positive worker count, and the pool running every submitted group once (in any
  order), the executor block returns normally: no group's exception leaves it. Every group is
  attempted, on the disk left by the groups that ran before it, whatever their outcomes; its
  outcome is the one collected for it; the disk at the end is the one left by the last group;
  and the messages printed are the errors of the failed groups.
\<close>

theorem run_executor_collects_all:
  assumes "0 < num_threads"
      and "distinct order" and "set order = {0..<length grouped_blobs}"
  shows "\<exists>futures.
           run_executor h fs bucket_name destination_folder grouped_blobs num_threads order s
             = (Inr (),
                foldl (\<lambda>t i. snd (download_group h fs bucket_name (grouped_blobs ! i) destination_folder t))
                      s order,
                collect_results futures)
         \<and> length futures = length grouped_blobs
         \<and> (\<forall>i<length grouped_blobs.
               \<exists>k<length futures.
                 order ! k = i
               \<and> futures ! k
                   = (i, fst (download_group h fs bucket_name (grouped_blobs ! i) destination_folder
                                (foldl (\<lambda>t i. snd (download_group h fs bucket_name (grouped_blobs ! i)
                                                       destination_folder t))
                                       s (take k order)))))
         \<and> collect_results futures
             = map ErrorDownloading
                 (concat (map (\<lambda>(i, r). case r of Inl e \<Rightarrow> [e] | Inr u \<Rightarrow> []) futures))"
proof -
  let ?step = "\<lambda>t i. snd (download_group h fs bucket_name (grouped_blobs ! i) destination_folder t)"
  define futures where
    "futures = map (\<lambda>k. (order ! k,
                    fst (download_group h fs bucket_name (grouped_blobs ! (order ! k)) destination_folder
                           (foldl ?step s (take k order)))))
            [0..<length order]"
  have inside: "\<forall>i\<in>set order. i < length grouped_blobs"
    using assms(3) by simp
  have run: "run_tasks h fs bucket_name destination_folder grouped_blobs order s
               = (futures, foldl ?step s order)"
    unfolding futures_def by (rule run_tasks_trace [OF inside])
  have len: "length order = length grouped_blobs"
    using assms(2,3) distinct_card [of order] by simp
  have 1: "run_executor h fs bucket_name destination_folder grouped_blobs num_threads order s
             = (Inr (), foldl ?step s order, collect_results futures)"
    using assms(1) run by (simp add: run_executor_def)
  have 2: "length futures = length grouped_blobs"
    using len by (simp add: futures_def)
  have 3: "\<forall>i<length grouped_blobs.
               \<exists>k<length futures.
                 order ! k = i
               \<and> futures ! k
                   = (i, fst (download_group h fs bucket_name (grouped_blobs ! i) destination_folder
                                (foldl ?step s (take k order))))"
  proof (intro allI impI)
    fix i assume "i < length grouped_blobs"
    with assms(3) have "i \<in> set order" by simp
    then obtain k where k: "k < length order" "order ! k = i"
      by (auto simp: in_set_conv_nth)
    have "futures ! k
            = (i, fst (download_group h fs bucket_name (grouped_blobs ! i) destination_folder
                         (foldl ?step s (take k order))))"
      using k by (simp add: futures_def)
    with k show "\<exists>k<length futures.
                 order ! k = i
               \<and> futures ! k
                   = (i, fst (download_group h fs bucket_name (grouped_blobs ! i) destination_folder
                                (foldl ?step s (take k order))))"
      by (auto simp: futures_def)
  qed
  have 4: "collect_results futures
             = map ErrorDownloading
                 (concat (map (\<lambda>(i, r). case r of Inl e \<Rightarrow> [e] | Inr u \<Rightarrow> []) futures))"
    by (rule collect_results_errors)
  from 1 2 3 4 show ?thesis by blast
qed


theorem run_executor_collects_all_witness:
  "0 < (16::int) \<and> distinct [2, 0, 1::nat]
   \<and> set [2, 0, 1::nat] = {0..<length [[''bkt/data/a''], [''bkt/data/c''], [''bkt/data/b'']]}
   \<and> run_executor sample_host sample_fs ''bkt'' ''/mnt/disk''
         [[''bkt/data/a''], [''bkt/data/c''], [''bkt/data/b'']] 16 [2, 0, 1] empty_disk
       = (Inr (),
          empty_disk
            \<lparr>dirs := {''/mnt/disk/data''},
             files := (files empty_disk)
                        (''/mnt/disk/data/b'' \<mapsto> [4, 5],
                         ''/mnt/disk/data/a'' \<mapsto> [1, 2, 3],
                         ''/mnt/disk/data/c'' \<mapsto> [6, 7])\<rparr>,
          [ErrorDownloading (HttpError ''reset'')])"
proof -
  let ?G = "[[''bkt/data/a''], [''bkt/data/c''], [''bkt/data/b'']]"
  let ?step = "\<lambda>t i. snd (download_group sample_host sample_fs ''bkt'' (?G ! i) ''/mnt/disk'' t)"
  have n: "0 < (16::int)" by simp
  have d: "distinct [2, 0, 1::nat]" by simp
  have p: "set [2, 0, 1::nat] = {0..<length ?G}" by auto
  from run_executor_collects_all [OF n d p, of sample_host sample_fs "''bkt''" "''/mnt/disk''" empty_disk]
  obtain futures where
    r: "run_executor sample_host sample_fs ''bkt'' ''/mnt/disk'' ?G 16 [2, 0, 1] empty_disk
           = (Inr (), foldl ?step empty_disk [2, 0, 1], collect_results futures)"
    and l: "length futures = length ?G"
    and a: "\<forall>i<length ?G. \<exists>k<length futures. [2, 0, 1] ! k = i
              \<and> futures ! k
                  = (i, fst (download_group sample_host sample_fs ''bkt'' (?G ! i) ''/mnt/disk''
                               (foldl ?step empty_disk (take k [2, 0, 1]))))"
    and c: "collect_results futures
              = map ErrorDownloading
                  (concat (map (\<lambda>(i, r). case r of Inl e \<Rightarrow> [e] | Inr u \<Rightarrow> []) futures))"
    by blast
  have l3: "length futures = 3" using l by simp
  from a [rule_format, of 0] obtain ka where
    ka: "ka < length futures" "[2, 0, 1] ! ka = (0::nat)"
        "futures ! ka
           = (0, fst (download_group sample_host sample_fs ''bkt'' (?G ! 0) ''/mnt/disk''
                        (foldl ?step empty_disk (take ka [2, 0, 1]))))"
    by auto
  from ka(1) l3 have "ka = 0 \<or> ka = 1 \<or> ka = 2" by arith
  with ka(2) have "ka = 1" by auto
  with ka(3) have f1: "futures ! 1 = (0, Inr ())"
    by (simp add: sample_step_a sample_step_b)
  from a [rule_format, of 1] obtain kc where
    kc: "kc < length futures" "[2, 0, 1] ! kc = (1::nat)"
        "futures ! kc
           = (1, fst (download_group sample_host sample_fs ''bkt'' (?G ! 1) ''/mnt/disk''
                        (foldl ?step empty_disk (take kc [2, 0, 1]))))"
    by auto
  from kc(1) l3 have "kc = 0 \<or> kc = 1 \<or> kc = 2" by arith
  with kc(2) have "kc = 2" by auto
  with kc(3) have f2: "futures ! 2 = (1, Inl (HttpError ''reset''))"
    by (simp add: sample_step_a sample_step_b sample_step_c)
  from a [rule_format, of 2] obtain kb where
    kb: "kb < length futures" "[2, 0, 1] ! kb = (2::nat)"
        "futures ! kb
           = (2, fst (download_group sample_host sample_fs ''bkt'' (?G ! 2) ''/mnt/disk''
                        (foldl ?step empty_disk (take kb [2, 0, 1]))))"
    by auto
  from kb(1) l3 have "kb = 0 \<or> kb = 1 \<or> kb = 2" by arith
  with kb(2) have "kb = 0" by auto
  with kb(3) have f0: "futures ! 0 = (2, Inr ())"
    by (simp add: sample_step_b)
  from l3 obtain x y z where "futures = [x, y, z]"
    by (cases futures; cases "tl futures"; cases "tl (tl futures)") auto
  with f0 f1 f2 have futures: "futures = [(2, Inr ()), (0, Inr ()), (1, Inl (HttpError ''reset''))]"
    by simp
  have printed: "collect_results futures = [ErrorDownloading (HttpError ''reset'')]"
    unfolding c futures by simp
  have disk: "foldl ?step empty_disk [2, 0, 1]
                = empty_disk
                    \<lparr>dirs := {''/mnt/disk/data''},
                     files := (files empty_disk)
                                (''/mnt/disk/data/b'' \<mapsto> [4, 5],
                                 ''/mnt/disk/data/a'' \<mapsto> [1, 2, 3],
                                 ''/mnt/disk/data/c'' \<mapsto> [6, 7])\<rparr>"
    by (simp add: sample_step_a sample_step_b sample_step_c empty_disk_def)
  from n d p r printed disk show ?thesis by simp
qed

end
